theory Spec2Isabelle
  imports Complex_Main "HOL-Library.Sublist"
begin

section \<open>Strings\<close>

text \<open>
  A Python \<open>str\<close> is a sequence of code points. It is modelled as a HOL \<open>string\<close>, each
  \<open>char\<close> standing for the code point of the same number, so the model covers the strings
  whose code points are below 256 (ASCII and Latin-1). On that range \<open>str.lower\<close> maps one
  code point to one code point and \<open>str.isspace\<close> holds for the twelve code points of
  \<open>is_space\<close>.
\<close>

definition lower_char :: "char \<Rightarrow> char" where
  "lower_char c =
     (let n = (of_char c :: nat)
      in if (65 \<le> n \<and> n \<le> 90) \<or> (192 \<le> n \<and> n \<le> 222 \<and> n \<noteq> 215)
         then char_of (n + 32) else c)"

definition lower :: "string \<Rightarrow> string" where
  "lower s = map lower_char s"

definition is_space :: "char \<Rightarrow> bool" where
  "is_space c = (c \<in> set [CHR 0x09, CHR 0x0A, CHR 0x0B, CHR 0x0C, CHR 0x0D,
                            CHR 0x1C, CHR 0x1D, CHR 0x1E, CHR 0x1F, CHR 0x20,
                            CHR 0x85, CHR 0xA0])"

definition startswith :: "string \<Rightarrow> string \<Rightarrow> bool" where
  "startswith s p = prefix p s"

definition endswith :: "string \<Rightarrow> string \<Rightarrow> bool" where
  "endswith s p = suffix p s"

text \<open>\<open>s.rfind(c)\<close>: the highest index of \<open>c\<close> in \<open>s\<close>, or \<open>-1\<close>.\<close>

definition rfind :: "string \<Rightarrow> char \<Rightarrow> int" where
  "rfind s c =
     (if c \<in> set s
      then int (length s) - 1 - int (length (takeWhile (\<lambda>x. x \<noteq> c) (rev s)))
      else - 1)"

text \<open>\<open>s.split(c)\<close> with an explicit separator keeps the empty fields.\<close>

primrec split_on :: "char \<Rightarrow> string \<Rightarrow> string list" where
  "split_on c [] = [[]]"
| "split_on c (x # xs) =
     (if x = c then [] # split_on c xs
      else (case split_on c xs of [] \<Rightarrow> [[x]] | w # ws \<Rightarrow> (x # w) # ws))"

section \<open>Paths (pathlib, POSIX flavour)\<close>

text \<open>
  \<open>Path(p)\<close> drops empty and \<open>.\<close> components; \<open>name\<close> is the last component left, or
  the empty string. \<open>suffix\<close> is the one of Python 3.4 to 3.13: the part of the name from
  its last dot, when that dot is neither the first nor the last character of the name.
\<close>

definition path_parts :: "string \<Rightarrow> string list" where
  "path_parts p = filter (\<lambda>s. s \<noteq> [] \<and> s \<noteq> ''.'') (split_on (CHR ''/'') p)"

definition path_name :: "string \<Rightarrow> string" where
  "path_name p = (case path_parts p of [] \<Rightarrow> [] | x # xs \<Rightarrow> last (x # xs))"

definition path_suffix :: "string \<Rightarrow> string" where
  "path_suffix p =
     (let name = path_name p; i = rfind name (CHR ''.'')
      in if 0 < i \<and> i < int (length name) - 1 then drop (nat i) name else [])"

section \<open>Category classifier\<close>

datatype category = Image | Text | Pdf | Document | Spreadsheet | Presentation | Binary

definition IMAGE_EXTENSIONS :: "string list" where
  "IMAGE_EXTENSIONS =
     [''.jpg'', ''.jpeg'', ''.png'', ''.gif'', ''.bmp'', ''.tiff'', ''.webp'', ''.heic'']"

definition TEXT_EXTENSIONS :: "string list" where
  "TEXT_EXTENSIONS =
     [''.txt'', ''.md'', ''.rst'', ''.log'', ''.py'', ''.js'', ''.ts'', ''.html'', ''.css'',
      ''.json'', ''.xml'', ''.yml'', ''.yaml'', ''.csv'', ''.toml'', ''.ini'', ''.cfg'',
      ''.sql'']"

definition PDF_EXTENSIONS :: "string list" where
  "PDF_EXTENSIONS = [''.pdf'']"

definition DOCUMENT_EXTENSIONS :: "string list" where
  "DOCUMENT_EXTENSIONS = [''.doc'', ''.docx'', ''.rtf'', ''.odt'', ''.pages'']"

definition SPREADSHEET_EXTENSIONS :: "string list" where
  "SPREADSHEET_EXTENSIONS = [''.xls'', ''.xlsx'', ''.ods'', ''.numbers'', ''.csv'']"

definition PRESENTATION_EXTENSIONS :: "string list" where
  "PRESENTATION_EXTENSIONS = [''.ppt'', ''.pptx'', ''.odp'', ''.key'']"

definition get_file_category :: "string \<Rightarrow> string \<Rightarrow> category" where
  "get_file_category file_path mime =
     (let extension = lower (path_suffix file_path)
      in if extension \<in> set IMAGE_EXTENSIONS \<or> startswith mime ''image/'' then Image
         else if extension \<in> set TEXT_EXTENSIONS
                 \<or> startswith mime ''text/'' \<or> startswith mime ''application/json'' then Text
         else if extension \<in> set PDF_EXTENSIONS \<or> mime = ''application/pdf'' then Pdf
         else if extension \<in> set DOCUMENT_EXTENSIONS then Document
         else if extension \<in> set SPREADSHEET_EXTENSIONS then Spreadsheet
         else if extension \<in> set PRESENTATION_EXTENSIONS then Presentation
         else Binary)"

subsection \<open>The two readings of the classifier\<close>

text \<open>
  \<open>ext_category\<close> is the first of the six tables that holds an extension, in the order
  image, text, pdf, document, spreadsheet, presentation; \<open>mime_category\<close> is what the MIME
  checks alone give, in the same order. \<open>classify_extension_first\<close> is the classifier as
  the specification words it: the tables first, the MIME checks only when no table matches.
\<close>

definition ext_category :: "string \<Rightarrow> category option" where
  "ext_category e =
     (if e \<in> set IMAGE_EXTENSIONS then Some Image
      else if e \<in> set TEXT_EXTENSIONS then Some Text
      else if e \<in> set PDF_EXTENSIONS then Some Pdf
      else if e \<in> set DOCUMENT_EXTENSIONS then Some Document
      else if e \<in> set SPREADSHEET_EXTENSIONS then Some Spreadsheet
      else if e \<in> set PRESENTATION_EXTENSIONS then Some Presentation
      else None)"

definition mime_category :: "string \<Rightarrow> category option" where
  "mime_category m =
     (if startswith m ''image/'' then Some Image
      else if startswith m ''text/'' \<or> startswith m ''application/json'' then Some Text
      else if m = ''application/pdf'' then Some Pdf
      else None)"

definition classify_extension_first :: "string \<Rightarrow> string \<Rightarrow> category" where
  "classify_extension_first file_path mime =
     (case ext_category (lower (path_suffix file_path)) of
        Some c \<Rightarrow> c
      | None \<Rightarrow> (case mime_category mime of Some c \<Rightarrow> c | None \<Rightarrow> Binary))"

primrec precedence :: "category \<Rightarrow> nat" where
  "precedence Image = 0"
| "precedence Text = 1"
| "precedence Pdf = 2"
| "precedence Document = 3"
| "precedence Spreadsheet = 4"
| "precedence Presentation = 5"
| "precedence Binary = 6"

definition earlier :: "category \<Rightarrow> category \<Rightarrow> category" where
  "earlier a b = (if precedence a \<le> precedence b then a else b)"

section \<open>Image payload builder\<close>

text \<open>
  A decoded Pillow image, as far as \<open>image_base64_encode\<close> reads it: its size and its
  mode (\<open>RGB\<close>, \<open>RGBA\<close>, \<open>L\<close>, \<open>LA\<close>, \<open>P\<close>, ...). Pillow's resampling and its
  encoders are not part of the repository: the builder is modelled up to the job it hands
  to \<open>Image.save\<close>. An exception of Pillow leaves the builder and reaches
  \<open>rename_single_file\<close> as a failed suggestion (\<open>Raised\<close> below).
\<close>

record image =
  width :: nat
  height :: nat
  mode :: string

datatype img_format = JPEG | PNG

datatype pil_error = ValueError

record save_job =
  job_image :: image
  job_format :: img_format
  job_quality :: "nat option"
  job_optimize :: bool

definition max_dimension :: nat where
  "max_dimension = 1024"

text \<open>
  The size handed to \<open>image.resize\<close>, or the original size when the image is not resized.
  The source computes \<open>int((original_height * max_dimension) / original_width)\<close> with a
  float division; for sides below \<open>2^31\<close> the quotient is below 1024 (or exactly 1024) and
  at least \<open>2^-31\<close> away from the next integer unless exact, so truncating the float gives
  the integer quotient.
\<close>

definition scaled_size :: "nat \<Rightarrow> nat \<Rightarrow> nat \<times> nat" where
  "scaled_size original_width original_height =
     (if original_width > max_dimension \<or> original_height > max_dimension
      then if original_width > original_height
           then (max_dimension, (original_height * max_dimension) div original_width)
           else ((original_width * max_dimension) div original_height, max_dimension)
      else (original_width, original_height))"

text \<open>
  \<open>Image.resize\<close>, as far as the builder depends on it: Pillow refuses a size with a side
  below 1 (\<open>ValueError: height and width must be > 0\<close>); otherwise the image has the new
  size and its mode.
\<close>

definition image_resize :: "image \<Rightarrow> nat \<times> nat \<Rightarrow> pil_error + image" where
  "image_resize img new_size =
     (case new_size of
        (new_width, new_height) \<Rightarrow>
          if new_width < 1 \<or> new_height < 1 then Inl ValueError
          else Inr (img\<lparr>width := new_width, height := new_height\<rparr>))"

definition resized :: "image \<Rightarrow> pil_error + image" where
  "resized img =
     (if width img > max_dimension \<or> height img > max_dimension
      then image_resize img (scaled_size (width img) (height img))
      else Inr img)"

text \<open>The format and the mode of the image handed to \<open>Image.save\<close>.\<close>

definition save_job_of :: "image \<Rightarrow> pil_error + save_job" where
  "save_job_of img =
     (case resized img of
        Inl e \<Rightarrow> Inl e
      | Inr im \<Rightarrow>
          Inr (if mode im = ''RGBA''
               then \<lparr>job_image = im, job_format = PNG, job_quality = None,
                     job_optimize = True\<rparr>
               else \<lparr>job_image = (if mode im \<noteq> ''RGB'' then im\<lparr>mode := ''RGB''\<rparr> else im),
                     job_format = JPEG, job_quality = Some 85, job_optimize = True\<rparr>))"

text \<open>
  \<open>image_base64_encode\<close>: \<open>encode\<close> stands for \<open>Image.save\<close> into a buffer followed by
  \<open>base64.b64encode\<close> and \<open>decode("utf-8")\<close>. The exception of the resize leaves the
  function.
\<close>

definition image_base64_encode :: "(save_job \<Rightarrow> string) \<Rightarrow> image \<Rightarrow> pil_error + string" where
  "image_base64_encode encode img =
     (case save_job_of img of Inl e \<Rightarrow> Inl e | Inr job \<Rightarrow> Inr (encode job))"

text \<open>The \<open>image_url\<close> field of the payload that \<open>suggest_image_filename\<close> builds.\<close>

definition image_url :: "(save_job \<Rightarrow> string) \<Rightarrow> image \<Rightarrow> pil_error + string" where
  "image_url encode img =
     (case image_base64_encode encode img of
        Inl e \<Rightarrow> Inl e
      | Inr b64_encoded_img \<Rightarrow> Inr (''data:image/jpeg;base64,'' @ b64_encoded_img))"

section \<open>Response normalizer\<close>

text \<open>\<open>s.strip()\<close>, \<open>s.rstrip(chars)\<close>, \<open>s.split()\<close> and \<open>sep.join(ws)\<close>.\<close>

definition strip :: "string \<Rightarrow> string" where
  "strip s = rev (dropWhile is_space (rev (dropWhile is_space s)))"

definition rstrip_chars :: "string \<Rightarrow> string \<Rightarrow> string" where
  "rstrip_chars s chars = rev (dropWhile (\<lambda>c. c \<in> set chars) (rev s))"

function split_ws :: "string \<Rightarrow> string list" where
  "split_ws s =
     (case dropWhile is_space s of
        [] \<Rightarrow> []
      | c # cs \<Rightarrow>
          (c # takeWhile (\<lambda>x. \<not> is_space x) cs) # split_ws (dropWhile (\<lambda>x. \<not> is_space x) cs))"
  by pat_completeness auto
termination
proof (relation "measure length")
  show "wf (measure length)" by simp
next
  fix s :: string and c cs
  assume a: "dropWhile is_space s = c # cs"
  have "length (dropWhile (\<lambda>x. \<not> is_space x) cs) \<le> length cs"
    by (rule length_dropWhile_le)
  moreover have "length (c # cs) \<le> length s"
    using length_dropWhile_le [of is_space s] a by simp
  ultimately show "(dropWhile (\<lambda>x. \<not> is_space x) cs, s) \<in> measure length"
    by simp
qed

declare split_ws.simps [simp del]

fun join :: "string \<Rightarrow> string list \<Rightarrow> string" where
  "join sep [] = []"
| "join sep [w] = w"
| "join sep (w # v # ws) = w @ sep @ join sep (v # ws)"

text \<open>The character class \<open>[<>:"/\\|?*]\<close> of \<open>clean_filename\<close>.\<close>

definition reserved :: "char \<Rightarrow> bool" where
  "reserved c = (c \<in> set [CHR ''<'', CHR ''>'', CHR '':'', CHR 0x22, CHR ''/'', CHR 0x5C,
                            CHR ''|'', CHR ''?'', CHR ''*''])"

text \<open>
  \<open>os.path.splitext\<close> (posixpath): the loop skips the dots that lead the last component;
  the extension starts at the last dot when a character other than a dot stands between
  the last separator and that dot.
\<close>

function splitext_loop :: "string \<Rightarrow> nat \<Rightarrow> nat \<Rightarrow> string \<times> string" where
  "splitext_loop p filenameIndex dotIndex =
     (if filenameIndex < dotIndex
      then if take 1 (drop filenameIndex p) \<noteq> ''.''
           then (take dotIndex p, drop dotIndex p)
           else splitext_loop p (filenameIndex + 1) dotIndex
      else (p, []))"
  by pat_completeness auto
termination
  by (relation "measure (\<lambda>(p, filenameIndex, dotIndex). dotIndex - filenameIndex)") auto

declare splitext_loop.simps [simp del]

definition splitext :: "string \<Rightarrow> string \<times> string" where
  "splitext p =
     (let sepIndex = rfind p (CHR ''/''); dotIndex = rfind p (CHR ''.'')
      in if dotIndex > sepIndex then splitext_loop p (nat (sepIndex + 1)) (nat dotIndex)
         else (p, []))"

definition clean_filename :: "string \<Rightarrow> string" where
  "clean_filename filename =
     (case splitext filename of
        (name, ext) \<Rightarrow>
          (let name1 = filter (\<lambda>c. \<not> reserved c) name;
               name2 = join '' '' (split_ws name1);
               name3 = rstrip_chars name2 ''. ''
           in if name3 \<noteq> [] then name3 @ ext else ''renamed_file'' @ ext))"

definition ensure_extension :: "string \<Rightarrow> string \<Rightarrow> string" where
  "ensure_extension base_name ext =
     (let bn = strip base_name
      in if bn = [] then ''renamed_file'' @ ext
         else if ext \<noteq> [] \<and> \<not> endswith (lower bn) (lower ext) then bn @ ext
         else bn)"

text \<open>
  The normalizer of the specification: extension reconciliation, then sanitization, as
  \<open>rename_single_file\<close> applies them to a suggestion.
\<close>

definition normalize_suggestion :: "string \<Rightarrow> string \<Rightarrow> string" where
  "normalize_suggestion raw_suggestion original_extension =
     clean_filename (ensure_extension raw_suggestion original_extension)"

section \<open>Orchestrator\<close>

text \<open>
  The file system is a map from resolved paths to entries. A path string resolves to
  whether it is absolute and its components without the empty and \<open>.\<close> ones (two
  leading slashes resolve as one); symbolic links and \<open>..\<close> are not interpreted. \<open>str(Path(p).parent)\<close> and \<open>os.path.join\<close> produce
  strings, which the operating system resolves again.
\<close>

datatype entry = File string | Dir

type_synonym path_key = "bool \<times> string list"

type_synonym filesystem = "path_key \<Rightarrow> entry option"

definition resolve :: "string \<Rightarrow> path_key" where
  "resolve p = (startswith p ''/'', path_parts p)"

text \<open>
  The root of a POSIX path: exactly two leading slashes are kept, one or three and more
  are a single slash. \<open>path_str\<close> is \<open>str(Path(p))\<close> and \<open>path_parent\<close> is
  \<open>str(Path(p).parent)\<close>.
\<close>

definition path_root :: "string \<Rightarrow> string" where
  "path_root p =
     (if startswith p ''//'' \<and> \<not> startswith p ''///'' then ''//''
      else if startswith p ''/'' then ''/''
      else [])"

definition path_str :: "string \<Rightarrow> string" where
  "path_str p =
     (if path_root p \<noteq> [] then path_root p @ join ''/'' (path_parts p)
      else if path_parts p = [] then ''.'' else join ''/'' (path_parts p))"

definition path_parent :: "string \<Rightarrow> string" where
  "path_parent p =
     (let ps = butlast (path_parts p)
      in if path_root p \<noteq> [] then path_root p @ join ''/'' ps
         else if ps = [] then ''.'' else join ''/'' ps)"

definition os_path_join :: "string \<Rightarrow> string \<Rightarrow> string" where
  "os_path_join a b =
     (if startswith b ''/'' then b
      else if a = [] \<or> endswith a ''/'' then a @ b
      else a @ ''/'' @ b)"

definition os_path_exists :: "filesystem \<Rightarrow> string \<Rightarrow> bool" where
  "os_path_exists fs p = (fs (resolve p) \<noteq> None)"

definition os_rename :: "filesystem \<Rightarrow> string \<Rightarrow> string \<Rightarrow> filesystem" where
  "os_rename fs src dst = (fs(resolve src := None))(resolve dst := fs (resolve src))"

definition MAX_FILE_BYTES :: nat where
  "MAX_FILE_BYTES = 3 * 1024 * 1024"

text \<open>
  What lies outside the repository, per invocation: \<open>mimetypes.guess_type\<close>, the payload
  builder together with the request to the model (\<open>Raised\<close> when either raises, else the
  response's \<open>output_text\<close>, which may be absent), the answer of
  \<open>get_user_confirmation\<close>, and whether the operating system refuses the rename with an
  exception.
\<close>

datatype gateway_result = Raised | Output "string option"

record environment =
  guess_type :: "string \<Rightarrow> string option"
  gateway :: "category \<Rightarrow> gateway_result"
  confirmation :: bool
  rename_refused :: bool

datatype failure = ProcessingError

text \<open>
  \<open>suggest_filename\<close>: the three builders differ in the payload they send; each ends by
  refusing an empty answer and reconciling the extension.
\<close>

definition suggest_filename ::
  "environment \<Rightarrow> string \<Rightarrow> string \<Rightarrow> string \<Rightarrow> category \<Rightarrow> failure + string" where
  "suggest_filename env file_path current_filename mime cat =
     (case gateway env cat of
        Raised \<Rightarrow> Inl ProcessingError
      | Output None \<Rightarrow> Inl ProcessingError
      | Output (Some content) \<Rightarrow>
          if content = [] \<or> strip content = [] then Inl ProcessingError
          else Inr (ensure_extension (strip content) (path_suffix current_filename)))"

datatype message =
    NotAFile
  | TooLarge
  | ErrorProcessing
  | TargetExists string
  | Renamed string
  | KeepOriginal string

record outcome =
  success :: bool
  printed :: "message option"
  files :: filesystem

text \<open>\<open>mimetypes.guess_type(str(target))[0] or "application/octet-stream"\<close>.\<close>

definition detect_mime :: "environment \<Rightarrow> string \<Rightarrow> string" where
  "detect_mime env file_path =
     (case guess_type env (path_str file_path) of
        Some m \<Rightarrow> if m = [] then ''application/octet-stream'' else m
      | None \<Rightarrow> ''application/octet-stream'')"

definition rename_single_file :: "environment \<Rightarrow> filesystem \<Rightarrow> string \<Rightarrow> outcome" where
  "rename_single_file env fs file_path =
     (case fs (resolve file_path) of
        Some (File content) \<Rightarrow>
          if length content > MAX_FILE_BYTES
          then \<lparr>success = False, printed = Some TooLarge, files = fs\<rparr>
          else
            (let file_name = path_name file_path;
                 folder_path = path_parent file_path;
                 mime = detect_mime env file_path;
                 cat = get_file_category file_path mime
             in case suggest_filename env file_path file_name mime cat of
                  Inl e \<Rightarrow> \<lparr>success = False, printed = Some ErrorProcessing, files = fs\<rparr>
                | Inr new_filename \<Rightarrow>
                    if new_filename \<noteq> [] \<and> new_filename \<noteq> file_name
                    then
                      (let cleaned = clean_filename new_filename;
                           new_file_path = os_path_join folder_path cleaned
                       in if os_path_exists fs new_file_path
                          then \<lparr>success = False, printed = Some (TargetExists cleaned),
                                files = fs\<rparr>
                          else if confirmation env
                          then if rename_refused env
                               then \<lparr>success = False, printed = Some ErrorProcessing,
                                     files = fs\<rparr>
                               else \<lparr>success = True, printed = Some (Renamed cleaned),
                                     files = os_rename fs file_path new_file_path\<rparr>
                          else \<lparr>success = True, printed = None, files = fs\<rparr>)
                    else \<lparr>success = True, printed = Some (KeepOriginal file_name),
                          files = fs\<rparr>)
      | _ \<Rightarrow> \<lparr>success = False, printed = Some NotAFile, files = fs\<rparr>)"

section \<open>Notions used in the statements and proofs\<close>

text \<open>A word is a non-empty string without whitespace: what \<open>split\<close> returns.\<close>

definition word :: "string \<Rightarrow> bool" where
  "word w = (w \<noteq> [] \<and> (\<forall>c\<in>set w. \<not> is_space c))"

text \<open>Two whitespace characters side by side.\<close>

fun adjacent_spaces :: "string \<Rightarrow> bool" where
  "adjacent_spaces (a # b # r) = ((is_space a \<and> is_space b) \<or> adjacent_spaces (b # r))"
| "adjacent_spaces [a] = False"
| "adjacent_spaces [] = False"

text \<open>What \<open>clean_filename\<close> makes of the base name, before the extension is put back.\<close>

definition sanitize_base :: "string \<Rightarrow> string" where
  "sanitize_base name =
     (let name3 = rstrip_chars (join '' '' (split_ws (filter (\<lambda>c. \<not> reserved c) name))) ''. ''
      in if name3 \<noteq> [] then name3 else ''renamed_file'')"

text \<open>All dots of the string stand at its start.\<close>

definition lead_dots :: "string \<Rightarrow> bool" where
  "lead_dots s = (\<exists>d r. s = d @ r \<and> set d \<subseteq> {CHR ''.''} \<and> CHR ''.'' \<notin> set r)"

text \<open>The characters that lower-casing neither changes nor produces.\<close>

definition special :: "char \<Rightarrow> bool" where
  "special c = (reserved c \<or> is_space c \<or> c = CHR ''.'')"


text \<open>
  A concrete invocation for the examples: a directory \<open>docs\<close> with two text files, a model
  that answers with a given text, and a user who accepts.
\<close>

definition stub_environment :: "string \<Rightarrow> environment" where
  "stub_environment answer =
     \<lparr>guess_type = (\<lambda>p. Some ''text/plain''),
      gateway = (\<lambda>c. Output (Some answer)),
      confirmation = True, rename_refused = False\<rparr>"

definition sample_files :: filesystem where
  "sample_files =
     [(False, [''docs'']) \<mapsto> Dir,
      (False, [''docs'', ''notes.txt'']) \<mapsto> File ''Meeting minutes'',
      (False, [''docs'', ''target.txt'']) \<mapsto> File ''older'']"

text \<open>A directory whose file name holds a reserved character, beside the sanitized name.\<close>

definition colon_files :: filesystem where
  "colon_files =
     [(False, [''docs'']) \<mapsto> Dir,
      (False, [''docs'', ''a:b.txt'']) \<mapsto> File ''first'',
      (False, [''docs'', ''ab.txt'']) \<mapsto> File ''second'']"

section \<open>Properties of the classifier\<close>

text \<open>
  C1 (as the code has it). The extension tables and the MIME checks are interleaved, not
  staged: the result is the earlier, in the order image, text, pdf, document, spreadsheet,
  presentation, of the first table holding the lower-cased extension and of the category
  the MIME checks give; it is binary when there is neither. So the result is that of the
  extension-first reading whenever the MIME string passes no MIME check, the extension is
  in no table, or the first table of the extension is not later in the order than the
  category of the MIME string (as it always is for an extension of the image table).
\<close>

theorem get_file_category_interleaved:
  "get_file_category p m =
     (case (ext_category (lower (path_suffix p)), mime_category m) of
        (None, None) \<Rightarrow> Binary
      | (Some a, None) \<Rightarrow> a
      | (None, Some b) \<Rightarrow> b
      | (Some a, Some b) \<Rightarrow> earlier a b)
   \<and> (mime_category m = None \<or> ext_category (lower (path_suffix p)) = None
        \<or> (\<exists>a b. ext_category (lower (path_suffix p)) = Some a \<and> mime_category m = Some b
               \<and> precedence a \<le> precedence b)
      \<longrightarrow> get_file_category p m = classify_extension_first p m)
   \<and> (ext_category (lower (path_suffix p)) = Some Image \<longrightarrow> get_file_category p m = Image)"
proof -
  have 1: "get_file_category p m =
     (case (ext_category (lower (path_suffix p)), mime_category m) of
        (None, None) \<Rightarrow> Binary
      | (Some a, None) \<Rightarrow> a
      | (None, Some b) \<Rightarrow> b
      | (Some a, Some b) \<Rightarrow> earlier a b)"
    by (simp add: get_file_category_def ext_category_def mime_category_def earlier_def Let_def)
  have 2: "mime_category m = None \<or> ext_category (lower (path_suffix p)) = None
        \<or> (\<exists>a b. ext_category (lower (path_suffix p)) = Some a \<and> mime_category m = Some b
               \<and> precedence a \<le> precedence b)
      \<longrightarrow> get_file_category p m = classify_extension_first p m"
    unfolding 1 classify_extension_first_def
    by (auto simp: earlier_def split: option.splits)
  have 3: "ext_category (lower (path_suffix p)) = Some Image \<longrightarrow> get_file_category p m = Image"
    unfolding 1 by (auto simp: earlier_def split: option.splits)
  from 1 2 3 show ?thesis by blast
qed

theorem get_file_category_interleaved_witness:
  "ext_category (lower (path_suffix ''scan.PNG'')) = Some Image
   \<and> get_file_category ''scan.PNG'' ''text/plain'' = Image
   \<and> classify_extension_first ''scan.PNG'' ''text/plain'' = Image"
proof -
  have e: "ext_category (lower (path_suffix ''scan.PNG'')) = Some Image" by code_simp
  have c: "classify_extension_first ''scan.PNG'' ''text/plain'' = Image" by code_simp
  from get_file_category_interleaved [of "''scan.PNG''" "''text/plain''"] e
  have "get_file_category ''scan.PNG'' ''text/plain'' = Image" by blast
  with e c show ?thesis by blast
qed

text \<open>
  C1 (as stated) fails: \<open>.rtf\<close> is in the document table and in no earlier one, yet with
  the MIME string \<open>text/rtf\<close> the classifier answers text, where the extension-first
  reading answers document.
\<close>

theorem classify_mime_before_table:
  "get_file_category ''letter.rtf'' ''text/rtf'' = Text
   \<and> ext_category (lower (path_suffix ''letter.rtf'')) = Some Document
   \<and> classify_extension_first ''letter.rtf'' ''text/rtf'' = Document"
  by code_simp

text \<open>
  C9. A path whose extension is \<open>.csv\<close> in any letter case is classified as text with
  the MIME type of CSV files, \<open>text/csv\<close>, and with every MIME string that does not start
  with \<open>image/\<close>: the text table is consulted before the spreadsheet table.
\<close>

theorem csv_is_text:
  "lower (path_suffix p) = ''.csv'' \<Longrightarrow>
     get_file_category p ''text/csv'' = Text
     \<and> (\<not> startswith mime ''image/'' \<longrightarrow> get_file_category p mime = Text)"
  by (simp add: get_file_category_def Let_def IMAGE_EXTENSIONS_def TEXT_EXTENSIONS_def
      startswith_def)

theorem csv_is_text_witness:
  "lower (path_suffix ''/data/Sales.CSV'') = ''.csv''
   \<and> get_file_category ''/data/Sales.CSV'' ''text/csv'' = Text
   \<and> \<not> startswith ''application/vnd.ms-excel'' ''image/''
   \<and> get_file_category ''/data/Sales.CSV'' ''application/vnd.ms-excel'' = Text"
proof -
  have h: "lower (path_suffix ''/data/Sales.CSV'') = ''.csv''" by code_simp
  have m: "\<not> startswith ''application/vnd.ms-excel'' ''image/''" by code_simp
  from csv_is_text [OF h, of "''application/vnd.ms-excel''"] h m show ?thesis by simp
qed

section \<open>Properties of the image payload builder\<close>

lemma scaled_side:
  fixes a b :: nat
  assumes b0: "0 < b" and ab: "a \<le> b"
  shows "(a * 1024) div b \<le> 1024"
    and "\<bar>real ((a * 1024) div b) - real a * 1024 / real b\<bar> < 1"
proof -
  let ?q = "(a * 1024) div b"
  have "?q \<le> (b * 1024) div b" using ab by (intro div_le_mono) simp
  also have "\<dots> = 1024" using b0 by simp
  finally show "?q \<le> 1024" .
  have lo: "?q * b \<le> a * 1024" by simp
  have hi: "a * 1024 < (?q + 1) * b"
    using dividend_less_div_times [OF b0, of "a * 1024"] by (simp add: algebra_simps)
  have "real (?q * b) \<le> real (a * 1024)" using lo by (simp only: of_nat_le_iff)
  then have "real ?q * real b \<le> real a * 1024" by simp
  then have l: "real ?q \<le> real a * 1024 / real b" using b0
    by (simp add: pos_le_divide_eq)
  have "real (a * 1024) < real ((?q + 1) * b)" using hi by (simp only: of_nat_less_iff)
  then have "real a * 1024 < (real ?q + 1) * real b" by (simp add: algebra_simps)
  then have u: "real a * 1024 / real b < real ?q + 1" using b0
    by (simp add: pos_divide_less_eq)
  from l u show "\<bar>real ?q - real a * 1024 / real b\<bar> < 1" by linarith
qed

lemma scaled_size_wide:
  assumes "h < w" and "w > 1024 \<or> h > 1024"
  shows "scaled_size w h = (1024, (h * 1024) div w)"
  using assms unfolding scaled_size_def max_dimension_def by simp

lemma scaled_size_tall:
  assumes "\<not> h < w" and "w > 1024 \<or> h > 1024"
  shows "scaled_size w h = ((w * 1024) div h, 1024)"
  using assms unfolding scaled_size_def max_dimension_def by simp

lemma scaled_size_small:
  assumes "w \<le> 1024" and "h \<le> 1024"
  shows "scaled_size w h = (w, h)"
  using assms unfolding scaled_size_def max_dimension_def by simp

lemma scaled_size_longer_side:
  assumes big: "w > 1024 \<or> h > 1024" and sz: "scaled_size w h = (nw, nh)"
  shows "max nw nh = 1024
     \<and> (h < w \<longrightarrow> nw = 1024 \<and> \<bar>real nh - real h * 1024 / real w\<bar> < 1)
     \<and> (w \<le> h \<longrightarrow> nh = 1024 \<and> \<bar>real nw - real w * 1024 / real h\<bar> < 1)"
proof (cases "h < w")
  case True
  from scaled_size_wide [OF True big] sz
  have nw: "nw = 1024" and nh: "nh = (h * 1024) div w" by simp_all
  have w0: "0 < w" and hw: "h \<le> w" using True by simp_all
  have "nh \<le> 1024" unfolding nh by (rule scaled_side(1) [OF w0 hw])
  then have m: "max nw nh = 1024" unfolding nw by (simp add: max_def)
  have "\<bar>real nh - real h * 1024 / real w\<bar> < 1"
    unfolding nh by (rule scaled_side(2) [OF w0 hw])
  with m nw True show ?thesis by (simp only: not_le [symmetric] simp_thms)
next
  case False
  have wh: "w \<le> h" using False by simp
  have h0: "0 < h" using big wh by arith
  from scaled_size_tall [OF False big] sz
  have nh: "nh = 1024" and nw: "nw = (w * 1024) div h" by simp_all
  have "nw \<le> 1024" unfolding nw by (rule scaled_side(1) [OF h0 wh])
  then have m: "max nw nh = 1024" unfolding nh by (simp add: max_def)
  have "\<bar>real nw - real w * 1024 / real h\<bar> < 1"
    unfolding nw by (rule scaled_side(2) [OF h0 wh])
  with m nh False wh show ?thesis by blast
qed

lemma resized_small:
  assumes "width img \<le> 1024" and "height img \<le> 1024"
  shows "resized img = Inr img"
  using assms by (simp add: resized_def max_dimension_def)

lemma resized_large:
  assumes "1024 < width img \<or> 1024 < height img"
  shows "resized img =
           (if fst (scaled_size (width img) (height img)) = 0
               \<or> snd (scaled_size (width img) (height img)) = 0
            then Inl ValueError
            else Inr (img\<lparr>width := fst (scaled_size (width img) (height img)),
                          height := snd (scaled_size (width img) (height img))\<rparr>))"
proof -
  obtain nw nh where sz: "scaled_size (width img) (height img) = (nw, nh)"
    by (cases "scaled_size (width img) (height img)")
  have "resized img = image_resize img (nw, nh)"
    using assms by (simp add: resized_def max_dimension_def sz)
  then show ?thesis by (simp add: image_resize_def sz)
qed

lemma resized_mode:
  assumes "resized img = Inr im"
  shows "mode im = mode img"
proof (cases "1024 < width img \<or> 1024 < height img")
  case True
  let ?nw = "fst (scaled_size (width img) (height img))"
  let ?nh = "snd (scaled_size (width img) (height img))"
  from resized_large [OF True] assms
  have "(if ?nw = 0 \<or> ?nh = 0 then Inl ValueError
         else Inr (img\<lparr>width := ?nw, height := ?nh\<rparr>)) = Inr im" by simp
  then have "im = img\<lparr>width := ?nw, height := ?nh\<rparr>"
    by (cases "?nw = 0 \<or> ?nh = 0") simp_all
  then show ?thesis by simp
next
  case False
  then have s: "width img \<le> 1024" "height img \<le> 1024" by auto
  from resized_small [OF s] assms have "im = img" by simp
  then show ?thesis by simp
qed

lemma resized_size:
  assumes "resized img = Inr im"
  shows "(width im, height im) = scaled_size (width img) (height img)"
proof (cases "1024 < width img \<or> 1024 < height img")
  case True
  let ?nw = "fst (scaled_size (width img) (height img))"
  let ?nh = "snd (scaled_size (width img) (height img))"
  from resized_large [OF True] assms
  have "(if ?nw = 0 \<or> ?nh = 0 then Inl ValueError
         else Inr (img\<lparr>width := ?nw, height := ?nh\<rparr>)) = Inr im" by simp
  then have "im = img\<lparr>width := ?nw, height := ?nh\<rparr>"
    by (cases "?nw = 0 \<or> ?nh = 0") simp_all
  then show ?thesis by simp
next
  case False
  then have s: "width img \<le> 1024" "height img \<le> 1024" by auto
  from resized_small [OF s] assms have "im = img" by simp
  then show ?thesis by (simp add: scaled_size_small [OF s])
qed

lemma save_job_of_Inr:
  assumes "save_job_of img = Inr job"
  shows "\<exists>im. resized img = Inr im \<and> width (job_image job) = width im
            \<and> height (job_image job) = height im
            \<and> job_format job = (if mode im = ''RGBA'' then PNG else JPEG)
            \<and> job_quality job = (if mode im = ''RGBA'' then None else Some 85)"
proof (cases "resized img")
  case (Inl e)
  then have "save_job_of img = Inl e" by (simp add: save_job_of_def)
  with assms show ?thesis by simp
next
  case (Inr im)
  show ?thesis
  proof (cases "mode im = ''RGBA''")
    case True
    then have "save_job_of img = Inr \<lparr>job_image = im, job_format = PNG, job_quality = None,
                     job_optimize = True\<rparr>"
      by (simp add: save_job_of_def Inr)
    with assms have "job = \<lparr>job_image = im, job_format = PNG, job_quality = None,
                     job_optimize = True\<rparr>" by simp
    with True Inr show ?thesis by simp
  next
    case False
    then have "save_job_of img =
        Inr \<lparr>job_image = (if mode im \<noteq> ''RGB'' then im\<lparr>mode := ''RGB''\<rparr> else im),
             job_format = JPEG, job_quality = Some 85, job_optimize = True\<rparr>"
      by (simp add: save_job_of_def Inr)
    with assms have "job =
        \<lparr>job_image = (if mode im \<noteq> ''RGB'' then im\<lparr>mode := ''RGB''\<rparr> else im),
         job_format = JPEG, job_quality = Some 85, job_optimize = True\<rparr>" by simp
    with False Inr show ?thesis by simp
  qed
qed

lemma save_job_of_Inl: "save_job_of img = Inl e \<longleftrightarrow> resized img = Inl e"
  by (simp add: save_job_of_def split: sum.splits)

text \<open>
  C8. When the width or the height of the original image exceeds 1024, the size the
  builder computes for the resize has its longer side equal to 1024 and its other side
  within one pixel of the exact proportional value; when both are at most 1024 the image is
  not resized. Whenever the builder hands an image to the encoder, that image has the
  computed size; the builder ends with Pillow's exception exactly when the image is
  resized and a computed side is 0.
\<close>

theorem image_builder_size:
  "(1024 < width img \<or> 1024 < height img \<longrightarrow>
      max (fst (scaled_size (width img) (height img)))
          (snd (scaled_size (width img) (height img))) = 1024
      \<and> (height img < width img \<longrightarrow>
            fst (scaled_size (width img) (height img)) = 1024
            \<and> \<bar>real (snd (scaled_size (width img) (height img)))
                  - real (height img) * 1024 / real (width img)\<bar> < 1)
      \<and> (width img \<le> height img \<longrightarrow>
            snd (scaled_size (width img) (height img)) = 1024
            \<and> \<bar>real (fst (scaled_size (width img) (height img)))
                  - real (width img) * 1024 / real (height img)\<bar> < 1))
   \<and> (width img \<le> 1024 \<and> height img \<le> 1024 \<longrightarrow>
        scaled_size (width img) (height img) = (width img, height img)
        \<and> resized img = Inr img)
   \<and> (\<forall>job. save_job_of img = Inr job \<longrightarrow>
          (width (job_image job), height (job_image job))
            = scaled_size (width img) (height img))
   \<and> ((save_job_of img = Inl ValueError) =
        ((1024 < width img \<or> 1024 < height img)
         \<and> (fst (scaled_size (width img) (height img)) = 0
              \<or> snd (scaled_size (width img) (height img)) = 0)))"
proof -
  let ?nw = "fst (scaled_size (width img) (height img))"
  let ?nh = "snd (scaled_size (width img) (height img))"
  have sz: "scaled_size (width img) (height img) = (?nw, ?nh)" by simp
  have large: "1024 < width img \<or> 1024 < height img \<longrightarrow>
      max ?nw ?nh = 1024
      \<and> (height img < width img \<longrightarrow>
            ?nw = 1024 \<and> \<bar>real ?nh - real (height img) * 1024 / real (width img)\<bar> < 1)
      \<and> (width img \<le> height img \<longrightarrow>
            ?nh = 1024 \<and> \<bar>real ?nw - real (width img) * 1024 / real (height img)\<bar> < 1)"
  proof
    assume big: "1024 < width img \<or> 1024 < height img"
    show "max ?nw ?nh = 1024
      \<and> (height img < width img \<longrightarrow>
            ?nw = 1024 \<and> \<bar>real ?nh - real (height img) * 1024 / real (width img)\<bar> < 1)
      \<and> (width img \<le> height img \<longrightarrow>
            ?nh = 1024 \<and> \<bar>real ?nw - real (width img) * 1024 / real (height img)\<bar> < 1)"
      by (rule scaled_size_longer_side [OF big sz])
  qed
  have small: "width img \<le> 1024 \<and> height img \<le> 1024 \<longrightarrow>
      scaled_size (width img) (height img) = (width img, height img) \<and> resized img = Inr img"
    by (simp add: scaled_size_small resized_small)
  have job: "\<forall>job. save_job_of img = Inr job \<longrightarrow>
          (width (job_image job), height (job_image job))
            = scaled_size (width img) (height img)"
  proof (intro allI impI)
    fix job assume "save_job_of img = Inr job"
    from save_job_of_Inr [OF this] obtain im where im: "resized img = Inr im"
      "width (job_image job) = width im" "height (job_image job) = height im" by blast
    from resized_size [OF im(1)] im(2,3)
    show "(width (job_image job), height (job_image job))
            = scaled_size (width img) (height img)" by simp
  qed
  have err: "(save_job_of img = Inl ValueError) =
        ((1024 < width img \<or> 1024 < height img) \<and> (?nw = 0 \<or> ?nh = 0))"
  proof (cases "1024 < width img \<or> 1024 < height img")
    case True
    then show ?thesis by (simp add: save_job_of_Inl resized_large)
  next
    case False
    then have "resized img = Inr img" by (intro resized_small) auto
    with False show ?thesis by (simp add: save_job_of_Inl)
  qed
  from large small job err show ?thesis by blast
qed

theorem image_builder_size_witness:
  "scaled_size 4000 3000 = (1024, 768)
   \<and> save_job_of \<lparr>width = 4000, height = 3000, mode = ''RGB''\<rparr>
       = Inr \<lparr>job_image = \<lparr>width = 1024, height = 768, mode = ''RGB''\<rparr>,
              job_format = JPEG, job_quality = Some 85, job_optimize = True\<rparr>
   \<and> max (1024::nat) 768 = 1024
   \<and> \<bar>real (768::nat) - real (3000::nat) * 1024 / real (4000::nat)\<bar> < 1
   \<and> scaled_size 1025 1 = (1024, 0)
   \<and> save_job_of \<lparr>width = 1025, height = 1, mode = ''RGB''\<rparr> = Inl ValueError"
proof -
  let ?img = "\<lparr>width = 4000, height = 3000, mode = ''RGB''\<rparr>"
  let ?thin = "\<lparr>width = 1025, height = 1, mode = ''RGB''\<rparr>"
  have s: "scaled_size 4000 3000 = (1024, 768)"
    by (simp add: scaled_size_def max_dimension_def)
  have j: "save_job_of ?img
       = Inr \<lparr>job_image = \<lparr>width = 1024, height = 768, mode = ''RGB''\<rparr>,
              job_format = JPEG, job_quality = Some 85, job_optimize = True\<rparr>"
    by (simp add: save_job_of_def resized_def image_resize_def s max_dimension_def)
  have t: "scaled_size 1025 1 = (1024, 0)"
    by (simp add: scaled_size_def max_dimension_def)
  have b: "1024 < width ?img \<or> 1024 < height ?img" by simp
  have lt: "height ?img < width ?img" by simp
  have wi: "width ?img = 4000" and hi: "height ?img = 3000" by simp_all
  from image_builder_size [of ?img] b lt
  have "max (fst (scaled_size (width ?img) (height ?img)))
            (snd (scaled_size (width ?img) (height ?img))) = 1024
        \<and> \<bar>real (snd (scaled_size (width ?img) (height ?img)))
              - real (height ?img) * 1024 / real (width ?img)\<bar> < 1"
    by blast
  then have a: "max (1024::nat) 768 = 1024
        \<and> \<bar>real (768::nat) - real (3000::nat) * 1024 / real (4000::nat)\<bar> < 1"
    unfolding wi hi s fst_conv snd_conv .
  have tb: "1024 < width ?thin \<or> 1024 < height ?thin" by simp
  have tz: "fst (scaled_size (width ?thin) (height ?thin)) = 0
            \<or> snd (scaled_size (width ?thin) (height ?thin)) = 0"
    by (simp add: scaled_size_def max_dimension_def)
  from image_builder_size [of ?thin] tb tz
  have e: "save_job_of ?thin = Inl ValueError" by blast
  from s j a t e show ?thesis by blast
qed

text \<open>
  C4 (the code at an RGBA image). Whenever the builder hands a job to the encoder, the
  format is PNG exactly for an image of mode \<open>RGBA\<close> and JPEG at quality 85 for every other
  mode, and whenever the payload has an image URL, it announces the bytes as \<open>image/jpeg\<close>:
  the data URI's MIME type is a constant of \<open>suggest_image_filename\<close>, whatever format was
  chosen. For a 640 by 480 RGBA image, which is not resized, the bytes are PNG and the URI
  says \<open>image/jpeg\<close>.
\<close>

theorem rgba_png_sent_as_jpeg:
  "(\<forall>job. save_job_of img = Inr job \<longrightarrow>
       job_format job = (if mode img = ''RGBA'' then PNG else JPEG)
       \<and> job_quality job = (if mode img = ''RGBA'' then None else Some 85))
   \<and> (\<forall>url. image_url encode img = Inr url \<longrightarrow> startswith url ''data:image/jpeg;base64,'')
   \<and> save_job_of \<lparr>width = 640, height = 480, mode = ''RGBA''\<rparr>
       = Inr \<lparr>job_image = \<lparr>width = 640, height = 480, mode = ''RGBA''\<rparr>,
              job_format = PNG, job_quality = None, job_optimize = True\<rparr>
   \<and> image_url encode \<lparr>width = 640, height = 480, mode = ''RGBA''\<rparr>
       = Inr (''data:image/jpeg;base64,''
              @ encode \<lparr>job_image = \<lparr>width = 640, height = 480, mode = ''RGBA''\<rparr>,
                        job_format = PNG, job_quality = None, job_optimize = True\<rparr>)
   \<and> \<not> startswith (''data:image/jpeg;base64,''
              @ encode \<lparr>job_image = \<lparr>width = 640, height = 480, mode = ''RGBA''\<rparr>,
                        job_format = PNG, job_quality = None, job_optimize = True\<rparr>)
          ''data:image/png''"
proof -
  have g: "\<forall>job. save_job_of img = Inr job \<longrightarrow>
       job_format job = (if mode img = ''RGBA'' then PNG else JPEG)
       \<and> job_quality job = (if mode img = ''RGBA'' then None else Some 85)"
  proof (intro allI impI)
    fix job assume "save_job_of img = Inr job"
    from save_job_of_Inr [OF this] obtain im where im: "resized img = Inr im"
      "job_format job = (if mode im = ''RGBA'' then PNG else JPEG)"
      "job_quality job = (if mode im = ''RGBA'' then None else Some 85)" by blast
    from resized_mode [OF im(1)] im(2,3)
    show "job_format job = (if mode img = ''RGBA'' then PNG else JPEG)
       \<and> job_quality job = (if mode img = ''RGBA'' then None else Some 85)" by simp
  qed
  have u: "\<forall>url. image_url encode img = Inr url \<longrightarrow> startswith url ''data:image/jpeg;base64,''"
    by (auto simp: image_url_def startswith_def split: sum.splits)
  have j: "save_job_of \<lparr>width = 640, height = 480, mode = ''RGBA''\<rparr>
       = Inr \<lparr>job_image = \<lparr>width = 640, height = 480, mode = ''RGBA''\<rparr>,
              job_format = PNG, job_quality = None, job_optimize = True\<rparr>"
    by (simp add: save_job_of_def resized_def max_dimension_def)
  have i: "image_url encode \<lparr>width = 640, height = 480, mode = ''RGBA''\<rparr>
       = Inr (''data:image/jpeg;base64,''
              @ encode \<lparr>job_image = \<lparr>width = 640, height = 480, mode = ''RGBA''\<rparr>,
                        job_format = PNG, job_quality = None, job_optimize = True\<rparr>)"
    by (simp add: image_url_def image_base64_encode_def j)
  have n: "\<not> startswith (''data:image/jpeg;base64,''
              @ encode \<lparr>job_image = \<lparr>width = 640, height = 480, mode = ''RGBA''\<rparr>,
                        job_format = PNG, job_quality = None, job_optimize = True\<rparr>)
          ''data:image/png''"
    by (simp add: startswith_def)
  from g u j i n show ?thesis by blast
qed

theorem rgba_png_sent_as_jpeg_witness:
  "image_url (\<lambda>job. ''iVBORw0KGgo='') \<lparr>width = 640, height = 480, mode = ''RGBA''\<rparr>
     = Inr ''data:image/jpeg;base64,iVBORw0KGgo=''
   \<and> startswith ''data:image/jpeg;base64,iVBORw0KGgo='' ''data:image/jpeg;base64,''"
proof -
  let ?img = "\<lparr>width = 640, height = 480, mode = ''RGBA''\<rparr>"
  let ?enc = "\<lambda>job :: save_job. ''iVBORw0KGgo=''"
  from rgba_png_sent_as_jpeg [of ?img ?enc]
  have u: "\<forall>url. image_url ?enc ?img = Inr url \<longrightarrow> startswith url ''data:image/jpeg;base64,''"
    and i: "image_url ?enc ?img = Inr (''data:image/jpeg;base64,'' @ ''iVBORw0KGgo='')"
    by blast+
  from i have i': "image_url ?enc ?img = Inr ''data:image/jpeg;base64,iVBORw0KGgo=''" by simp
  from u i' have "startswith ''data:image/jpeg;base64,iVBORw0KGgo='' ''data:image/jpeg;base64,''"
    by blast
  with i' show ?thesis by blast
qed

section \<open>Properties of the string operations\<close>

subsection \<open>Characters\<close>

lemma is_space_space: "is_space (CHR '' '')"
  by (simp add: is_space_def)

lemma not_space_dot: "\<not> is_space (CHR ''.'')"
  by (simp add: is_space_def)

lemma not_reserved_dot: "\<not> reserved (CHR ''.'')"
  by (simp add: reserved_def)

lemma not_reserved_space: "\<not> reserved (CHR '' '')"
  by (simp add: reserved_def)

lemma reserved_slash: "reserved (CHR ''/'')"
  by (simp add: reserved_def)

text \<open>Lower-casing neither produces nor changes a reserved character, a whitespace
  character or a dot.\<close>

lemma lower_char_changed:
  "lower_char c \<noteq> c \<Longrightarrow>
     (97 \<le> (of_char (lower_char c) :: nat) \<and> (of_char (lower_char c) :: nat) \<le> 122)
     \<or> (224 \<le> (of_char (lower_char c) :: nat) \<and> (of_char (lower_char c) :: nat) \<le> 254
         \<and> (of_char (lower_char c) :: nat) \<noteq> 247)"
  unfolding lower_char_def Let_def
  by (auto simp: of_char_of split: if_splits)

lemma special_code: "special c \<Longrightarrow> (of_char c :: nat) < 97 \<or> (of_char c :: nat) \<in> {124, 133, 160}"
  unfolding special_def reserved_def is_space_def by auto

lemma special_not_upper: "special c \<Longrightarrow> lower_char c = c"
  unfolding special_def reserved_def is_space_def lower_char_def Let_def by auto

lemma lower_char_special:
  assumes "special c'" and "lower_char c = lower_char c'"
  shows "c = c'"
proof (rule ccontr)
  assume ne: "c \<noteq> c'"
  have l: "lower_char c = c'" using assms special_not_upper by simp
  with ne have "lower_char c \<noteq> c" by simp
  from lower_char_changed [OF this] special_code [OF assms(1)] l
  show False by auto
qed

subsection \<open>rfind\<close>

lemma rfind_absent: "c \<notin> set s \<Longrightarrow> rfind s c = - 1"
  by (simp add: rfind_def)

lemma rfind_last:
  assumes "c \<notin> set ys"
  shows "rfind (xs @ c # ys) c = int (length xs)"
proof -
  have "takeWhile (\<lambda>x. x \<noteq> c) (rev ys @ c # rev xs)
          = rev ys @ takeWhile (\<lambda>x. x \<noteq> c) (c # rev xs)"
    using assms by (intro takeWhile_append2) auto
  then have "takeWhile (\<lambda>x. x \<noteq> c) (rev ys @ c # rev xs) = rev ys" by simp
  then show ?thesis by (simp add: rfind_def)
qed

lemma rfind_cases:
  "(c \<notin> set s \<and> rfind s c = - 1)
   \<or> (\<exists>xs ys. s = xs @ c # ys \<and> c \<notin> set ys \<and> rfind s c = int (length xs))"
proof (cases "c \<in> set s")
  case True
  then obtain xs ys where "s = xs @ c # ys" "c \<notin> set ys"
    by (meson split_list_last)
  then show ?thesis using rfind_last by blast
next
  case False
  then show ?thesis by (simp add: rfind_absent)
qed

subsection \<open>splitext\<close>

lemma take1_drop: "j < length p \<Longrightarrow> take (Suc 0) (drop j p) = [p ! j]"
proof -
  assume "j < length p"
  then have "drop j p = p ! j # drop (Suc j) p" by (simp add: Cons_nth_drop_Suc)
  then show ?thesis by simp
qed

lemma splitext_loop_eq:
  "d \<le> length p \<Longrightarrow>
   splitext_loop p i d =
     (if \<exists>j. i \<le> j \<and> j < d \<and> p ! j \<noteq> CHR ''.'' then (take d p, drop d p) else (p, []))"
proof (induction p i d rule: splitext_loop.induct)
  case (1 p i d)
  show ?case
  proof (cases "i < d")
    case False
    then show ?thesis by (subst splitext_loop.simps) auto
  next
    case True
    then have il: "i < length p" using "1.prems" by simp
    show ?thesis
    proof (cases "p ! i = CHR ''.''")
      case nd: False
      then have "splitext_loop p i d = (take d p, drop d p)"
        using True il by (subst splitext_loop.simps) (simp add: take1_drop)
      moreover have "\<exists>j. i \<le> j \<and> j < d \<and> p ! j \<noteq> CHR ''.''"
        using True nd by blast
      ultimately show ?thesis by simp
    next
      case dot: True
      then have "splitext_loop p i d = splitext_loop p (i + 1) d"
        using True il by (subst splitext_loop.simps) (simp add: take1_drop)
      also have "\<dots> = (if \<exists>j. i + 1 \<le> j \<and> j < d \<and> p ! j \<noteq> CHR ''.''
                        then (take d p, drop d p) else (p, []))"
        using "1.IH" True il dot "1.prems" by (simp add: take1_drop)
      also have "(\<exists>j. i + 1 \<le> j \<and> j < d \<and> p ! j \<noteq> CHR ''.'')
                 \<longleftrightarrow> (\<exists>j. i \<le> j \<and> j < d \<and> p ! j \<noteq> CHR ''.'')"
      proof
        assume "\<exists>j. i + 1 \<le> j \<and> j < d \<and> p ! j \<noteq> CHR ''.''"
        then obtain j where "i + 1 \<le> j" "j < d" "p ! j \<noteq> CHR ''.''" by blast
        then have "i \<le> j \<and> j < d \<and> p ! j \<noteq> CHR ''.''" by simp
        then show "\<exists>j. i \<le> j \<and> j < d \<and> p ! j \<noteq> CHR ''.''" ..
      next
        assume "\<exists>j. i \<le> j \<and> j < d \<and> p ! j \<noteq> CHR ''.''"
        then obtain j where j: "i \<le> j" "j < d" "p ! j \<noteq> CHR ''.''" by blast
        with dot have "j \<noteq> i" by auto
        with j have "i + 1 \<le> j \<and> j < d \<and> p ! j \<noteq> CHR ''.''" by simp
        then show "\<exists>j. i + 1 \<le> j \<and> j < d \<and> p ! j \<noteq> CHR ''.''" ..
      qed
      finally show ?thesis .
    qed
  qed
qed

text \<open>The extension found by \<open>splitext\<close>, in terms of the text: \<open>h\<close> ends at the last
  separator, \<open>a\<close> is the rest up to the last dot.\<close>

lemma splitext_dot:
  assumes h: "h = [] \<or> last h = CHR ''/''"
    and a: "CHR ''/'' \<notin> set a"
    and t: "CHR ''/'' \<notin> set t" "CHR ''.'' \<notin> set t"
  shows "splitext (h @ a @ CHR ''.'' # t) =
           (if \<exists>c\<in>set a. c \<noteq> CHR ''.'' then (h @ a, CHR ''.'' # t)
            else (h @ a @ CHR ''.'' # t, []))"
proof -
  let ?p = "h @ a @ CHR ''.'' # t"
  have dot: "rfind ?p (CHR ''.'') = int (length (h @ a))"
    using rfind_last [OF t(2), of "h @ a"] by simp
  have sep: "rfind ?p (CHR ''/'') = int (length h) - 1"
  proof (cases "h = []")
    case True
    then show ?thesis using a t by (simp add: rfind_absent)
  next
    case False
    with h obtain h' where h': "h = h' @ [CHR ''/'']"
      by (metis append_butlast_last_id)
    have "CHR ''/'' \<notin> set (a @ CHR ''.'' # t)" using a t by simp
    from rfind_last [OF this, of h'] show ?thesis by (simp add: h')
  qed
  have idx: "(\<exists>j. length h \<le> j \<and> j < length (h @ a) \<and> ?p ! j \<noteq> CHR ''.'')
             \<longleftrightarrow> (\<exists>c\<in>set a. c \<noteq> CHR ''.'')"
  proof
    assume "\<exists>j. length h \<le> j \<and> j < length (h @ a) \<and> ?p ! j \<noteq> CHR ''.''"
    then obtain j where j: "length h \<le> j" "j < length (h @ a)" "?p ! j \<noteq> CHR ''.''"
      by blast
    have jl: "j - length h < length a" using j by auto
    have "?p ! j = (a @ CHR ''.'' # t) ! (j - length h)"
      using j(1) by (simp add: nth_append)
    also have "\<dots> = a ! (j - length h)" using jl by (simp add: nth_append)
    finally have "?p ! j = a ! (j - length h)" .
    with jl show "\<exists>c\<in>set a. c \<noteq> CHR ''.''" using j(3) by (metis nth_mem)
  next
    assume "\<exists>c\<in>set a. c \<noteq> CHR ''.''"
    then obtain k where k: "k < length a" "a ! k \<noteq> CHR ''.''"
      by (metis in_set_conv_nth)
    then have "?p ! (length h + k) = a ! k" by (simp add: nth_append)
    with k show "\<exists>j. length h \<le> j \<and> j < length (h @ a) \<and> ?p ! j \<noteq> CHR ''.''"
      by (intro exI [of _ "length h + k"]) simp
  qed
  have "splitext ?p = splitext_loop ?p (length h) (length (h @ a))"
    unfolding splitext_def Let_def dot sep by (simp add: nat_int_add)
  also have "\<dots> = (if \<exists>j. length h \<le> j \<and> j < length (h @ a) \<and> ?p ! j \<noteq> CHR ''.''
                    then (take (length (h @ a)) ?p, drop (length (h @ a)) ?p) else (?p, []))"
    by (rule splitext_loop_eq) simp
  also have "\<dots> = (if \<exists>c\<in>set a. c \<noteq> CHR ''.'' then (h @ a, CHR ''.'' # t) else (?p, []))"
    unfolding idx by simp
  finally show ?thesis .
qed

lemma splitext_nodot:
  assumes h: "h = [] \<or> last h = CHR ''/''"
    and t: "CHR ''/'' \<notin> set t" "CHR ''.'' \<notin> set t"
  shows "splitext (h @ t) = (h @ t, [])"
proof (cases "h = []")
  case True
  then show ?thesis using t by (simp add: splitext_def rfind_absent)
next
  case False
  with h obtain h' where h': "h = h' @ [CHR ''/'']"
    by (metis append_butlast_last_id)
  let ?p = "h' @ CHR ''/'' # t"
  have p: "h @ t = ?p" by (simp add: h')
  have sep: "rfind ?p (CHR ''/'') = int (length h')"
    by (rule rfind_last [OF t(1)])
  have le: "rfind ?p (CHR ''.'') \<le> rfind ?p (CHR ''/'')"
    using rfind_cases [of "CHR ''.''" ?p]
  proof
    assume "CHR ''.'' \<notin> set ?p \<and> rfind ?p (CHR ''.'') = - 1"
    then show ?thesis using sep by simp
  next
    assume "\<exists>us vs. ?p = us @ CHR ''.'' # vs \<and> CHR ''.'' \<notin> set vs
              \<and> rfind ?p (CHR ''.'') = int (length us)"
    then obtain us vs where d: "?p = us @ CHR ''.'' # vs"
      "rfind ?p (CHR ''.'') = int (length us)" by blast
    have at: "?p ! length us = CHR ''.''" by (subst d(1)) simp
    have ul: "length us < length ?p" by (subst d(1)) simp
    have "length us < length h'"
    proof (rule ccontr)
      assume "\<not> length us < length h'"
      then have ge: "length h' \<le> length us" by simp
      then have "?p ! length us = (CHR ''/'' # t) ! (length us - length h')"
        by (simp add: nth_append)
      moreover have "length us - length h' < length (CHR ''/'' # t)"
        using ul ge by simp
      ultimately have "?p ! length us \<in> set (CHR ''/'' # t)"
        using nth_mem by metis
      with at t show False by simp
    qed
    then show ?thesis using sep d(2) by simp
  qed
  then have "splitext ?p = (?p, [])" by (simp add: splitext_def Let_def)
  then show ?thesis by (simp only: p)
qed

subsection \<open>split and join\<close>

lemma split_ws_none:
  assumes "dropWhile is_space s = []"
  shows "split_ws s = []"
  by (subst split_ws.simps) (simp only: assms list.case)

lemma split_ws_some:
  assumes "dropWhile is_space s = c # cs"
  shows "split_ws s = (c # takeWhile (\<lambda>x. \<not> is_space x) cs)
                        # split_ws (dropWhile (\<lambda>x. \<not> is_space x) cs)"
  by (subst split_ws.simps) (simp only: assms list.case)

lemma split_ws_Nil: "split_ws [] = []"
  by (rule split_ws_none) simp

lemma split_ws_space: "is_space c \<Longrightarrow> split_ws (c # r) = split_ws r"
proof -
  assume c: "is_space c"
  then have d: "dropWhile is_space (c # r) = dropWhile is_space r" by simp
  show ?thesis by (subst split_ws.simps, subst (2) split_ws.simps) (simp only: d)
qed

lemma split_ws_word_cons:
  assumes w: "word w" and r: "r = [] \<or> is_space (hd r)"
  shows "split_ws (w @ r) = w # split_ws r"
proof -
  from w obtain c cs where wc: "w = c # cs" and c: "\<not> is_space c"
    and cs: "\<forall>x\<in>set cs. \<not> is_space x"
    by (cases w) (auto simp: word_def)
  have d: "dropWhile is_space (w @ r) = c # (cs @ r)" using c by (simp add: wc)
  have tk: "takeWhile (\<lambda>x. \<not> is_space x) (cs @ r) = cs"
  proof (cases r)
    case Nil
    then show ?thesis using cs by simp
  next
    case (Cons y ys)
    with r have "is_space y" by simp
    then show ?thesis using cs Cons by (simp add: takeWhile_tail)
  qed
  have dr: "dropWhile (\<lambda>x. \<not> is_space x) (cs @ r) = r"
  proof (cases r)
    case Nil
    then show ?thesis using cs by simp
  next
    case (Cons y ys)
    with r have "is_space y" by simp
    then show ?thesis using cs Cons by simp
  qed
  show ?thesis
    using split_ws_some [OF d] by (simp add: tk dr wc)
qed

lemma split_ws_word: "word w \<Longrightarrow> split_ws w = [w]"
  using split_ws_word_cons [of w "[]"] by (simp add: split_ws_Nil)

lemma split_ws_words: "w \<in> set (split_ws s) \<Longrightarrow> word w"
proof (induction s arbitrary: w rule: split_ws.induct)
  case (1 s)
  show ?case
  proof (cases "dropWhile is_space s")
    case Nil
    then have "split_ws s = []" by (rule split_ws_none)
    with "1.prems" show ?thesis by simp
  next
    case (Cons c cs)
    then have eq: "split_ws s = (c # takeWhile (\<lambda>x. \<not> is_space x) cs)
                     # split_ws (dropWhile (\<lambda>x. \<not> is_space x) cs)"
      by (rule split_ws_some)
    have c: "\<not> is_space c" using Cons by (metis hd_dropWhile list.sel(1) list.distinct(1))
    have first: "word (c # takeWhile (\<lambda>x. \<not> is_space x) cs)"
      using c by (auto simp: word_def dest: set_takeWhileD)
    from "1.prems" eq first "1.IH" [OF Cons] show ?thesis by auto
  qed
qed

lemma split_ws_chars: "w \<in> set (split_ws s) \<Longrightarrow> set w \<subseteq> set s"
proof (induction s arbitrary: w rule: split_ws.induct)
  case (1 s)
  show ?case
  proof (cases "dropWhile is_space s")
    case Nil
    then have "split_ws s = []" by (rule split_ws_none)
    with "1.prems" show ?thesis by simp
  next
    case (Cons c cs)
    then have eq: "split_ws s = (c # takeWhile (\<lambda>x. \<not> is_space x) cs)
                     # split_ws (dropWhile (\<lambda>x. \<not> is_space x) cs)"
      by (rule split_ws_some)
    have sub: "set (c # cs) \<subseteq> set s"
      using Cons set_dropWhileD [of _ is_space s] by (metis subsetI)
    have a: "set (c # takeWhile (\<lambda>x. \<not> is_space x) cs) \<subseteq> set s"
      using sub by (auto dest: set_takeWhileD)
    have b: "set (dropWhile (\<lambda>x. \<not> is_space x) cs) \<subseteq> set s"
      using sub by (auto dest: set_dropWhileD)
    from "1.prems" eq have "w = c # takeWhile (\<lambda>x. \<not> is_space x) cs
        \<or> w \<in> set (split_ws (dropWhile (\<lambda>x. \<not> is_space x) cs))" by simp
    then show ?thesis
    proof
      assume "w = c # takeWhile (\<lambda>x. \<not> is_space x) cs"
      with a show ?thesis by simp
    next
      assume "w \<in> set (split_ws (dropWhile (\<lambda>x. \<not> is_space x) cs))"
      from "1.IH" [OF Cons this] b show ?thesis by blast
    qed
  qed
qed

lemma join_Cons: "ws \<noteq> [] \<Longrightarrow> join sep (w # ws) = w @ sep @ join sep ws"
  by (cases ws) simp_all

lemma join_snoc: "join sep (ws @ [w]) = (if ws = [] then w else join sep ws @ sep @ w)"
proof (induction sep ws rule: join.induct)
  case (3 sep a v ws)
  then show ?case by (simp add: join_Cons)
qed simp_all

lemma join_chars: "set (join sep ws) \<subseteq> set sep \<union> \<Union> (set ` set ws)"
  by (induction sep ws rule: join.induct) auto

lemma join_eq_Nil: "\<forall>w\<in>set ws. word w \<Longrightarrow> join sep ws = [] \<longleftrightarrow> ws = []"
  by (induction sep ws rule: join.induct) (auto simp: word_def)

lemma join_hd: "\<forall>w\<in>set ws. word w \<Longrightarrow> ws \<noteq> [] \<Longrightarrow>
    join sep ws \<noteq> [] \<and> \<not> is_space (hd (join sep ws))"
  by (induction sep ws rule: join.induct) (auto simp: word_def)

lemma split_ws_join:
  "\<forall>w\<in>set ws. word w \<Longrightarrow> split_ws (join '' '' ws) = ws"
proof (induction "'' ''" ws rule: join.induct)
  case 1
  then show ?case by (simp add: split_ws_Nil)
next
  case (2 w)
  then show ?case by (simp add: split_ws_word)
next
  case (3 w v ws)
  have "split_ws (w @ '' '' @ join '' '' (v # ws))
          = w # split_ws ('' '' @ join '' '' (v # ws))"
    using 3(2) by (intro split_ws_word_cons) (simp_all add: is_space_space)
  also have "split_ws ('' '' @ join '' '' (v # ws)) = split_ws (join '' '' (v # ws))"
    using split_ws_space [OF is_space_space] by simp
  also have "\<dots> = v # ws" using 3 by simp
  finally show ?case by simp
qed

lemma collapse_idem: "join '' '' (split_ws (join '' '' (split_ws s))) = join '' '' (split_ws s)"
  by (simp add: split_ws_join split_ws_words)

lemma clean_filename_split:
  "clean_filename s = sanitize_base (fst (splitext s)) @ snd (splitext s)"
  by (cases "splitext s") (simp add: clean_filename_def sanitize_base_def Let_def)

subsection \<open>rstrip\<close>

lemma rstrip_eq_Nil: "rstrip_chars s cs = [] \<longleftrightarrow> set s \<subseteq> set cs"
  by (auto simp: rstrip_chars_def)

lemma rstrip_append:
  "rstrip_chars (x @ y) cs =
     (if rstrip_chars y cs = [] then rstrip_chars x cs else x @ rstrip_chars y cs)"
proof (cases "rstrip_chars y cs = []")
  case True
  then have "\<And>z. z \<in> set (rev y) \<Longrightarrow> z \<in> set cs" by (auto simp: rstrip_eq_Nil)
  then have "dropWhile (\<lambda>c. c \<in> set cs) (rev y @ rev x) = dropWhile (\<lambda>c. c \<in> set cs) (rev x)"
    by (rule dropWhile_append2)
  with True show ?thesis by (simp add: rstrip_chars_def)
next
  case False
  then obtain z where "z \<in> set (rev y)" "\<not> z \<in> set cs" by (auto simp: rstrip_eq_Nil)
  then have "dropWhile (\<lambda>c. c \<in> set cs) (rev y @ rev x)
               = dropWhile (\<lambda>c. c \<in> set cs) (rev y) @ rev x"
    by (rule dropWhile_append1)
  then have "rstrip_chars (x @ y) cs = x @ rstrip_chars y cs"
    by (simp add: rstrip_chars_def)
  with False show ?thesis by (simp only: if_False)
qed

lemma rstrip_decomp: "\<exists>r. s = rstrip_chars s cs @ r \<and> set r \<subseteq> set cs"
proof -
  let ?P = "\<lambda>c. c \<in> set cs"
  have "rev (takeWhile ?P (rev s) @ dropWhile ?P (rev s)) = rev (rev s)"
    by (simp only: takeWhile_dropWhile_id)
  then have "rev (dropWhile ?P (rev s)) @ rev (takeWhile ?P (rev s)) = s"
    by (simp only: rev_append rev_rev_ident)
  then have "s = rstrip_chars s cs @ rev (takeWhile ?P (rev s))"
    by (simp only: rstrip_chars_def)
  moreover have "set (rev (takeWhile ?P (rev s))) \<subseteq> set cs"
    by (auto dest: set_takeWhileD)
  ultimately show ?thesis by blast
qed

lemma rstrip_chars_subset: "set (rstrip_chars s cs) \<subseteq> set s"
  by (auto simp: rstrip_chars_def dest: set_dropWhileD)

lemma rstrip_last: "rstrip_chars s cs \<noteq> [] \<Longrightarrow> last (rstrip_chars s cs) \<notin> set cs"
proof -
  assume ne: "rstrip_chars s cs \<noteq> []"
  then have d: "dropWhile (\<lambda>c. c \<in> set cs) (rev s) \<noteq> []" by (simp add: rstrip_chars_def)
  then have "\<not> hd (dropWhile (\<lambda>c. c \<in> set cs) (rev s)) \<in> set cs" by (rule hd_dropWhile)
  then show ?thesis using d by (simp add: rstrip_chars_def last_rev)
qed

lemma rstrip_id: "s = [] \<or> last s \<notin> set cs \<Longrightarrow> rstrip_chars s cs = s"
  by (cases s rule: rev_cases) (auto simp: rstrip_chars_def)

text \<open>Stripping the trailing dots and spaces of single-spaced words leaves single-spaced words.\<close>

lemma rstrip_word: "word w \<Longrightarrow> rstrip_chars w cs \<noteq> [] \<Longrightarrow> word (rstrip_chars w cs)"
  using rstrip_chars_subset [of w cs] by (auto simp: word_def)

lemma rstrip_join:
  "\<forall>w\<in>set ws. word w \<Longrightarrow>
     \<exists>ws'. (\<forall>w\<in>set ws'. word w) \<and> rstrip_chars (join '' '' ws) ''. '' = join '' '' ws'"
proof (induction ws rule: rev_induct)
  case Nil
  have "rstrip_chars (join '' '' []) ''. '' = join '' '' []" by (simp add: rstrip_chars_def)
  then show ?case by (intro exI [of _ "[]"]) simp
next
  case (snoc w ws)
  then have w: "word w" and ws: "\<forall>w\<in>set ws. word w" by simp_all
  from snoc.IH [OF ws] obtain ws' where ws': "\<forall>w\<in>set ws'. word w"
    "rstrip_chars (join '' '' ws) ''. '' = join '' '' ws'" by blast
  show ?case
  proof (cases "rstrip_chars w ''. '' = []")
    case False
    then have rw: "word (rstrip_chars w ''. '')" using w by (rule rstrip_word [rotated])
    have "rstrip_chars (join '' '' (ws @ [w])) ''. '' = join '' '' (ws @ [rstrip_chars w ''. ''])"
    proof (cases "ws = []")
      case e: True
      then show ?thesis by simp
    next
      case ne: False
      then have "join '' '' (ws @ [w]) = (join '' '' ws @ '' '') @ w"
        by (simp add: join_snoc)
      then have "rstrip_chars (join '' '' (ws @ [w])) ''. ''
                   = (join '' '' ws @ '' '') @ rstrip_chars w ''. ''"
        using False by (simp only: rstrip_append if_False)
      then show ?thesis using ne by (simp add: join_snoc)
    qed
    moreover have "\<forall>v\<in>set (ws @ [rstrip_chars w ''. '']). word v" using ws rw by simp
    ultimately show ?thesis by blast
  next
    case True
    have sp: "rstrip_chars ('' '' @ w) ''. '' = []"
      using True by (simp add: rstrip_eq_Nil)
    have "rstrip_chars (join '' '' (ws @ [w])) ''. '' = rstrip_chars (join '' '' ws) ''. ''"
    proof (cases "ws = []")
      case e: True
      then show ?thesis using True by (simp add: rstrip_chars_def)
    next
      case ne: False
      then have "join '' '' (ws @ [w]) = join '' '' ws @ ('' '' @ w)"
        by (simp add: join_snoc)
      then show ?thesis
        using rstrip_append [of "join '' '' ws" "'' '' @ w" "''. ''"] sp by simp
    qed
    with ws' show ?thesis by metis
  qed
qed

subsection \<open>Collapsing whitespace\<close>

lemma filter_word: "word w \<Longrightarrow> filter (\<lambda>c. \<not> is_space c) w = w"
  by (simp add: word_def)

lemma filter_join:
  "\<forall>w\<in>set ws. word w \<Longrightarrow> filter (\<lambda>c. \<not> is_space c) (join '' '' ws) = concat ws"
  by (induction "'' ''" ws rule: join.induct) (simp_all add: filter_word is_space_space)

lemma concat_split_ws: "concat (split_ws s) = filter (\<lambda>c. \<not> is_space c) s"
proof (induction s rule: split_ws.induct)
  case (1 s)
  show ?case
  proof (cases "dropWhile is_space s")
    case Nil
    then have "split_ws s = []" by (rule split_ws_none)
    moreover have "\<forall>x\<in>set s. is_space x" using Nil by (simp add: dropWhile_eq_Nil_conv)
    then have "filter (\<lambda>c. \<not> is_space c) s = []" by (simp add: filter_empty_conv)
    ultimately show ?thesis by simp
  next
    case (Cons c cs)
    let ?N = "\<lambda>x. \<not> is_space x"
    have c: "\<not> is_space c" using Cons by (metis hd_dropWhile list.sel(1) list.distinct(1))
    have s: "s = takeWhile is_space s @ c # cs"
      using Cons takeWhile_dropWhile_id [of is_space s] by simp
    have f1: "filter ?N (takeWhile is_space s) = []"
      by (auto simp: filter_empty_conv dest: set_takeWhileD)
    have f2: "filter ?N (takeWhile ?N cs) = takeWhile ?N cs"
      by (auto simp: filter_id_conv dest: set_takeWhileD)
    have "filter ?N s = filter ?N (takeWhile is_space s) @ filter ?N (c # cs)"
      by (subst s) simp
    also have "\<dots> = c # filter ?N cs"
      using c f1 by simp
    also have "\<dots> = c # filter ?N (takeWhile ?N cs @ dropWhile ?N cs)"
      by (simp only: takeWhile_dropWhile_id)
    also have "\<dots> = c # filter ?N (takeWhile ?N cs) @ filter ?N (dropWhile ?N cs)"
      by (simp only: filter_append)
    also have "\<dots> = c # takeWhile ?N cs @ filter ?N (dropWhile ?N cs)"
      by (simp only: f2)
    finally have "filter ?N s = c # takeWhile ?N cs @ concat (split_ws (dropWhile ?N cs))"
      using "1.IH" [OF Cons] by simp
    then show ?thesis using split_ws_some [OF Cons] by simp
  qed
qed

lemma adjacent_spaces_word_cons:
  assumes "word w" and "x \<noteq> []" and "\<not> is_space (hd x)"
  shows "adjacent_spaces (w @ CHR '' '' # x) = adjacent_spaces x"
  using assms
proof (induction w)
  case Nil
  then show ?case by (simp add: word_def)
next
  case (Cons c w)
  then have c: "\<not> is_space c" by (simp add: word_def)
  show ?case
  proof (cases w)
    case Nil
    obtain y ys where x: "x = y # ys" using Cons.prems(2) by (cases x) auto
    with Cons.prems(3) have "\<not> is_space y" by simp
    then show ?thesis using c Nil x by simp
  next
    case (Cons d ds)
    then have "word w" using Cons.prems(1) by (auto simp: word_def)
    from Cons.IH [OF this Cons.prems(2,3)] c Cons show ?thesis by simp
  qed
qed

lemma adjacent_spaces_word: "word w \<Longrightarrow> \<not> adjacent_spaces w"
proof (induction w rule: adjacent_spaces.induct)
  case (1 a b r)
  then have "word (b # r)" by (auto simp: word_def)
  with 1 show ?case by (auto simp: word_def)
qed simp_all

lemma join_single_spaced:
  "\<forall>w\<in>set ws. word w \<Longrightarrow> \<not> adjacent_spaces (join '' '' ws)"
proof (induction "'' ''" ws rule: join.induct)
  case (3 w v ws)
  have "join '' '' (v # ws) \<noteq> [] \<and> \<not> is_space (hd (join '' '' (v # ws)))"
    using 3(2) by (intro join_hd) simp_all
  then have "adjacent_spaces (w @ CHR '' '' # join '' '' (v # ws))
               = adjacent_spaces (join '' '' (v # ws))"
    using 3(2) by (intro adjacent_spaces_word_cons) simp_all
  with 3 show ?case by simp
qed (simp_all add: adjacent_spaces_word)

lemma join_spaces: "\<forall>w\<in>set ws. word w \<Longrightarrow> c \<in> set (join '' '' ws) \<Longrightarrow> is_space c
    \<Longrightarrow> c = CHR '' ''"
  using join_chars [of "'' ''" ws] by (auto simp: word_def)

subsection \<open>splitext, by cases\<close>

lemma last_sep_decomp:
  "\<exists>h r. p = h @ r \<and> (h = [] \<or> last h = c) \<and> c \<notin> set r"
proof (cases "c \<in> set p")
  case True
  then obtain xs ys where "p = xs @ c # ys" "c \<notin> set ys" by (meson split_list_last)
  then have "p = (xs @ [c]) @ ys \<and> ((xs @ [c]) = [] \<or> last (xs @ [c]) = c) \<and> c \<notin> set ys"
    by simp
  then show ?thesis by blast
next
  case False
  then have "p = [] @ p \<and> (([]::string) = [] \<or> last [] = c) \<and> c \<notin> set p" by simp
  then show ?thesis by blast
qed

lemma splitext_cases:
  "(\<exists>h a t. p = h @ a @ CHR ''.'' # t \<and> (h = [] \<or> last h = CHR ''/'')
        \<and> CHR ''/'' \<notin> set a \<and> CHR ''/'' \<notin> set t \<and> CHR ''.'' \<notin> set t
        \<and> (\<exists>c\<in>set a. c \<noteq> CHR ''.'') \<and> splitext p = (h @ a, CHR ''.'' # t))
   \<or> splitext p = (p, [])"
proof -
  from last_sep_decomp [of p "CHR ''/''"]
  obtain h r where hr: "p = h @ r" "h = [] \<or> last h = CHR ''/''" "CHR ''/'' \<notin> set r"
    by blast
  show ?thesis
  proof (cases "CHR ''.'' \<in> set r")
    case False
    with hr show ?thesis using splitext_nodot [of h r] by simp
  next
    case True
    then obtain a t where at: "r = a @ CHR ''.'' # t" "CHR ''.'' \<notin> set t"
      by (meson split_list_last)
    with hr(3) have sl: "CHR ''/'' \<notin> set a" "CHR ''/'' \<notin> set t" by simp_all
    have eq: "splitext (h @ a @ CHR ''.'' # t) =
           (if \<exists>c\<in>set a. c \<noteq> CHR ''.'' then (h @ a, CHR ''.'' # t)
            else (h @ a @ CHR ''.'' # t, []))"
      by (rule splitext_dot [OF hr(2) sl at(2)])
    have p: "p = h @ a @ CHR ''.'' # t" using hr(1) at(1) by simp
    show ?thesis
    proof (cases "\<exists>c\<in>set a. c \<noteq> CHR ''.''")
      case True
      with eq have "splitext p = (h @ a, CHR ''.'' # t)" by (simp add: p)
      with p hr(2) sl at(2) True show ?thesis by blast
    next
      case False
      with eq have "splitext p = (p, [])" by (simp add: p)
      then show ?thesis ..
    qed
  qed
qed

lemma splitext_shape:
  obtains (ext) h a t where "p = h @ a @ CHR ''.'' # t" "h = [] \<or> last h = CHR ''/''"
      "CHR ''/'' \<notin> set a" "CHR ''/'' \<notin> set t" "CHR ''.'' \<notin> set t"
      "\<exists>c\<in>set a. c \<noteq> CHR ''.''" "splitext p = (h @ a, CHR ''.'' # t)"
    | (none) "splitext p = (p, [])"
  using splitext_cases [of p] by blast

lemma splitext_partition: "fst (splitext p) @ snd (splitext p) = p"
proof (cases p rule: splitext_shape)
  case (ext h a t)
  then show ?thesis by simp
next
  case none
  then show ?thesis by simp
qed

lemma splitext_noext: "snd (splitext p) = [] \<Longrightarrow> splitext p = (p, [])"
proof (cases p rule: splitext_shape)
  case (ext h a t)
  assume "snd (splitext p) = []"
  with ext(7) show ?thesis by simp
next
  case none
  then show ?thesis .
qed


subsection \<open>Leading dots\<close>

lemma lead_dots_splitext:
  assumes "CHR ''/'' \<notin> set p" and "lead_dots p"
  shows "splitext p = (p, [])"
proof -
  from assms(2) obtain d r where dr: "p = d @ r" "set d \<subseteq> {CHR ''.''}" "CHR ''.'' \<notin> set r"
    by (auto simp: lead_dots_def)
  show ?thesis
  proof (cases d rule: rev_cases)
    case Nil
    with dr assms(1) show ?thesis using splitext_nodot [of "[]" r] by simp
  next
    case (snoc d' x)
    with dr(2) have x: "x = CHR ''.''" and d': "set d' \<subseteq> {CHR ''.''}" by auto
    have p: "p = [] @ d' @ CHR ''.'' # r" using dr(1) snoc x by simp
    have sl: "CHR ''/'' \<notin> set d'" "CHR ''/'' \<notin> set r" using assms(1) p by auto
    have "\<not> (\<exists>c\<in>set d'. c \<noteq> CHR ''.'')" using d' by auto
    with splitext_dot [of "[]" d' r, OF _ sl dr(3)] show ?thesis by (simp add: p)
  qed
qed

lemma noext_lead_dots:
  assumes "CHR ''/'' \<notin> set p" and "snd (splitext p) = []"
  shows "lead_dots p"
proof (cases "CHR ''.'' \<in> set p")
  case False
  then have "p = [] @ p \<and> set ([]::string) \<subseteq> {CHR ''.''} \<and> CHR ''.'' \<notin> set p" by simp
  then show ?thesis unfolding lead_dots_def by blast
next
  case True
  then obtain a t where at: "p = a @ CHR ''.'' # t" "CHR ''.'' \<notin> set t"
    by (meson split_list_last)
  have sl: "CHR ''/'' \<notin> set a" "CHR ''/'' \<notin> set t" using assms(1) at(1) by auto
  have eq: "splitext ([] @ a @ CHR ''.'' # t) =
           (if \<exists>c\<in>set a. c \<noteq> CHR ''.'' then ([] @ a, CHR ''.'' # t)
            else ([] @ a @ CHR ''.'' # t, []))"
    by (rule splitext_dot [OF _ sl at(2)]) simp
  have "\<not> (\<exists>c\<in>set a. c \<noteq> CHR ''.'')"
  proof
    assume "\<exists>c\<in>set a. c \<noteq> CHR ''.''"
    with eq have "snd (splitext p) = CHR ''.'' # t" by (simp add: at(1))
    with assms(2) show False by simp
  qed
  then have "set (a @ [CHR ''.'']) \<subseteq> {CHR ''.''}" by auto
  moreover have "p = (a @ [CHR ''.'']) @ t" using at(1) by simp
  ultimately show ?thesis unfolding lead_dots_def using at(2) by blast
qed

lemma lead_dots_collapse:
  assumes "lead_dots x"
  shows "lead_dots (join '' '' (split_ws x))"
proof -
  from assms obtain d r where dr: "x = d @ r" "set d \<subseteq> {CHR ''.''}" "CHR ''.'' \<notin> set r"
    by (auto simp: lead_dots_def)
  have chars: "\<And>s. set (join '' '' (split_ws s)) \<subseteq> insert (CHR '' '') (set s)"
  proof -
    fix s
    have "set (join '' '' (split_ws s)) \<subseteq> set '' '' \<union> \<Union> (set ` set (split_ws s))"
      by (rule join_chars)
    moreover have "\<Union> (set ` set (split_ws s)) \<subseteq> set s"
      using split_ws_chars by blast
    ultimately show "set (join '' '' (split_ws s)) \<subseteq> insert (CHR '' '') (set s)" by auto
  qed
  show ?thesis
  proof (cases "d = []")
    case True
    with dr have "CHR ''.'' \<notin> set x" by simp
    with chars [of x] have "CHR ''.'' \<notin> set (join '' '' (split_ws x))" by auto
    then have "join '' '' (split_ws x) = [] @ join '' '' (split_ws x)
        \<and> set ([]::string) \<subseteq> {CHR ''.''} \<and> CHR ''.'' \<notin> set (join '' '' (split_ws x))"
      by simp
    then show ?thesis unfolding lead_dots_def by blast
  next
    case False
    let ?N = "\<lambda>c. \<not> is_space c"
    let ?r1 = "takeWhile ?N r" and ?r2 = "dropWhile ?N r"
    have w: "word (d @ ?r1)"
      using False dr(2) not_space_dot by (auto simp: word_def dest: set_takeWhileD)
    have r2: "?r2 = [] \<or> is_space (hd ?r2)"
      using hd_dropWhile [of ?N r] by auto
    have "x = (d @ ?r1) @ ?r2" using dr(1) by simp
    then have sp: "split_ws x = (d @ ?r1) # split_ws ?r2"
      using split_ws_word_cons [OF w r2] by simp
    have nd1: "CHR ''.'' \<notin> set ?r1" using dr(3) by (auto dest: set_takeWhileD)
    have nd2: "CHR ''.'' \<notin> set (join '' '' (split_ws ?r2))"
      using chars [of ?r2] dr(3) by (auto dest: set_dropWhileD)
    show ?thesis
    proof (cases "split_ws ?r2 = []")
      case True
      then have "join '' '' (split_ws x) = d @ ?r1" using sp by simp
      with dr(2) nd1 show ?thesis unfolding lead_dots_def by blast
    next
      case ne: False
      then have "join '' '' (split_ws x) = d @ (?r1 @ '' '' @ join '' '' (split_ws ?r2))"
        using sp by (simp add: join_Cons)
      moreover have "CHR ''.'' \<notin> set (?r1 @ '' '' @ join '' '' (split_ws ?r2))"
        using nd1 nd2 by simp
      ultimately show ?thesis unfolding lead_dots_def using dr(2) by blast
    qed
  qed
qed

lemma lead_dots_rstrip:
  assumes "lead_dots x"
  shows "lead_dots (rstrip_chars x ''. '')"
proof -
  from assms obtain d r where dr: "x = d @ r" "set d \<subseteq> {CHR ''.''}" "CHR ''.'' \<notin> set r"
    by (auto simp: lead_dots_def)
  have e: "lead_dots []" unfolding lead_dots_def by simp
  show ?thesis
  proof (cases "rstrip_chars r ''. '' = []")
    case True
    have "rstrip_chars d ''. '' = []" using dr(2) by (auto simp: rstrip_eq_Nil)
    with True have "rstrip_chars x ''. '' = []" by (simp add: dr(1) rstrip_append)
    with e show ?thesis by simp
  next
    case False
    then have "rstrip_chars x ''. '' = d @ rstrip_chars r ''. ''"
      by (simp add: dr(1) rstrip_append)
    moreover have "CHR ''.'' \<notin> set (rstrip_chars r ''. '')"
      using rstrip_chars_subset [of r "''. ''"] dr(3) by auto
    ultimately show ?thesis unfolding lead_dots_def using dr(2) by blast
  qed
qed

lemma lead_dots_filter:
  assumes "lead_dots x"
  shows "lead_dots (filter (\<lambda>c. \<not> reserved c) x)"
proof -
  from assms obtain d r where dr: "x = d @ r" "set d \<subseteq> {CHR ''.''}" "CHR ''.'' \<notin> set r"
    by (auto simp: lead_dots_def)
  have "filter (\<lambda>c. \<not> reserved c) d = d"
    using dr(2) not_reserved_dot by (auto simp: filter_id_conv)
  then have "filter (\<lambda>c. \<not> reserved c) x = d @ filter (\<lambda>c. \<not> reserved c) r"
    by (simp add: dr(1))
  moreover have "CHR ''.'' \<notin> set (filter (\<lambda>c. \<not> reserved c) r)" using dr(3) by simp
  ultimately show ?thesis unfolding lead_dots_def using dr(2) by blast
qed

lemma lead_dots_sanitize: "lead_dots x \<Longrightarrow> lead_dots (sanitize_base x)"
proof -
  assume "lead_dots x"
  then have "lead_dots (rstrip_chars (join '' '' (split_ws (filter (\<lambda>c. \<not> reserved c) x))) ''. '')"
    by (intro lead_dots_rstrip lead_dots_collapse lead_dots_filter)
  moreover have "lead_dots ''renamed_file''" unfolding lead_dots_def
    by (intro exI [of _ "[]"] exI [of _ "''renamed_file''"]) simp
  ultimately show ?thesis by (simp add: sanitize_base_def Let_def)
qed

subsection \<open>The sanitized base name\<close>

lemma sanitize_base_nonempty: "sanitize_base n \<noteq> []"
  by (simp add: sanitize_base_def Let_def)

lemma rstrip_collapse_chars:
  "set (rstrip_chars (join '' '' (split_ws k)) cs) \<subseteq> insert (CHR '' '') (set k)"
proof -
  have "set (join '' '' (split_ws k)) \<subseteq> set '' '' \<union> \<Union> (set ` set (split_ws k))"
    by (rule join_chars)
  moreover have "\<Union> (set ` set (split_ws k)) \<subseteq> set k"
    using split_ws_chars by blast
  ultimately have "set (join '' '' (split_ws k)) \<subseteq> insert (CHR '' '') (set k)" by auto
  with rstrip_chars_subset [of "join '' '' (split_ws k)" cs] show ?thesis by blast
qed

lemma sanitize_base_unreserved: "c \<in> set (sanitize_base n) \<Longrightarrow> \<not> reserved c"
proof -
  assume c: "c \<in> set (sanitize_base n)"
  let ?b = "rstrip_chars (join '' '' (split_ws (filter (\<lambda>c. \<not> reserved c) n))) ''. ''"
  show ?thesis
  proof (cases "?b = []")
    case True
    with c have "c \<in> set ''renamed_file''" by (simp add: sanitize_base_def Let_def)
    then show ?thesis by (auto simp: reserved_def)
  next
    case False
    with c have "c \<in> set ?b" by (simp add: sanitize_base_def Let_def)
    with rstrip_collapse_chars [of "filter (\<lambda>c. \<not> reserved c) n" "''. ''"]
    have "c = CHR '' '' \<or> c \<in> set (filter (\<lambda>c. \<not> reserved c) n)" by auto
    then show ?thesis using not_reserved_space by auto
  qed
qed

lemma sanitize_base_last: "last (sanitize_base n) \<notin> set ''. ''"
proof -
  let ?b = "rstrip_chars (join '' '' (split_ws (filter (\<lambda>c. \<not> reserved c) n))) ''. ''"
  show ?thesis
  proof (cases "?b = []")
    case True
    then have "sanitize_base n = ''renamed_file''" by (simp add: sanitize_base_def Let_def)
    then show ?thesis by simp
  next
    case False
    then have "sanitize_base n = ?b" by (simp add: sanitize_base_def Let_def)
    with rstrip_last [OF False] show ?thesis by simp
  qed
qed

lemma sanitize_base_renamed: "sanitize_base ''renamed_file'' = ''renamed_file''"
  by code_simp

lemma sanitize_base_fixed:
  assumes ne: "b \<noteq> []" and un: "\<forall>c\<in>set b. \<not> reserved c"
    and ws: "\<forall>w\<in>set ws. word w" "b = join '' '' ws"
    and last: "last b \<notin> set ''. ''"
  shows "sanitize_base b = b"
proof -
  have f: "filter (\<lambda>c. \<not> reserved c) b = b"
    using un by (subst filter_id_conv)
  have c: "join '' '' (split_ws b) = b"
    by (simp only: ws(2) split_ws_join [OF ws(1)])
  have r: "rstrip_chars b ''. '' = b"
    by (rule rstrip_id) (rule disjI2, rule last)
  show ?thesis
    by (simp only: sanitize_base_def Let_def f c r ne not_False_eq_True if_True)
qed

lemma sanitize_base_idem: "sanitize_base (sanitize_base n) = sanitize_base n"
proof -
  define b where "b = rstrip_chars (join '' '' (split_ws (filter (\<lambda>c. \<not> reserved c) n))) ''. ''"
  have sbn: "sanitize_base n = (if b \<noteq> [] then b else ''renamed_file'')"
    by (simp only: sanitize_base_def Let_def b_def)
  show ?thesis
  proof (cases "b = []")
    case True
    then have "sanitize_base n = ''renamed_file''" by (simp add: sbn)
    then show ?thesis by (simp only: sanitize_base_renamed)
  next
    case False
    then have sb: "sanitize_base n = b" by (simp add: sbn)
    have "\<forall>w\<in>set (split_ws (filter (\<lambda>c. \<not> reserved c) n)). word w"
      using split_ws_words by blast
    from rstrip_join [OF this] obtain ws' where ws': "\<forall>w\<in>set ws'. word w"
      "b = join '' '' ws'" unfolding b_def by blast
    have un: "\<forall>c\<in>set b. \<not> reserved c"
    proof
      fix c assume "c \<in> set b"
      then have "c \<in> set (sanitize_base n)" by (simp only: sb)
      then show "\<not> reserved c" by (rule sanitize_base_unreserved)
    qed
    have "rstrip_chars (join '' '' (split_ws (filter (\<lambda>c. \<not> reserved c) n))) ''. '' \<noteq> []"
      using False unfolding b_def .
    then have last: "last b \<notin> set ''. ''"
      unfolding b_def by (rule rstrip_last)
    have "sanitize_base b = b"
      by (rule sanitize_base_fixed [OF False un ws' last])
    then show ?thesis by (simp only: sb)
  qed
qed

subsection \<open>Idempotence of clean_filename\<close>

lemma clean_filename_ext:
  assumes "snd (splitext s) \<noteq> []"
  shows "splitext (clean_filename s) = (sanitize_base (fst (splitext s)), snd (splitext s))"
proof -
  have "\<exists>h a t. CHR ''/'' \<notin> set t \<and> CHR ''.'' \<notin> set t
            \<and> splitext s = (h @ a, CHR ''.'' # t)"
  proof (cases s rule: splitext_shape)
    case (ext h a t)
    then show ?thesis by blast
  next
    case none
    with assms show ?thesis by simp
  qed
  then obtain h a t where hat: "CHR ''/'' \<notin> set t" "CHR ''.'' \<notin> set t"
    "splitext s = (h @ a, CHR ''.'' # t)" by blast
  let ?b = "sanitize_base (h @ a)"
  have sl: "CHR ''/'' \<notin> set ?b" using sanitize_base_unreserved reserved_slash by blast
  have "?b \<noteq> []" by (rule sanitize_base_nonempty)
  then have "last ?b \<in> set ?b" by simp
  moreover have "last ?b \<noteq> CHR ''.''" using sanitize_base_last [of "h @ a"] by auto
  ultimately have nd: "\<exists>c\<in>set ?b. c \<noteq> CHR ''.''" by blast
  have "splitext ([] @ ?b @ CHR ''.'' # t) = ([] @ ?b, CHR ''.'' # t)"
    using splitext_dot [of "[]" ?b t, OF _ sl hat(1,2)] nd by simp
  then show ?thesis by (simp add: clean_filename_split hat(3))
qed

lemma clean_filename_idem_ext:
  assumes "snd (splitext s) \<noteq> []"
  shows "clean_filename (clean_filename s) = clean_filename s"
proof -
  have "clean_filename (clean_filename s)
          = sanitize_base (fst (splitext (clean_filename s))) @ snd (splitext (clean_filename s))"
    by (rule clean_filename_split)
  also have "\<dots> = sanitize_base (sanitize_base (fst (splitext s))) @ snd (splitext s)"
    by (simp only: clean_filename_ext [OF assms] fst_conv snd_conv)
  also have "\<dots> = clean_filename s"
    by (simp only: sanitize_base_idem clean_filename_split)
  finally show ?thesis .
qed

lemma clean_filename_idem_noslash:
  assumes "CHR ''/'' \<notin> set s" and "snd (splitext s) = []"
  shows "clean_filename (clean_filename s) = clean_filename s"
proof -
  have sp: "splitext s = (s, [])" by (rule splitext_noext [OF assms(2)])
  then have c: "clean_filename s = sanitize_base s" by (simp add: clean_filename_split)
  have "lead_dots (sanitize_base s)"
    by (intro lead_dots_sanitize noext_lead_dots assms)
  moreover have "CHR ''/'' \<notin> set (sanitize_base s)"
    using sanitize_base_unreserved reserved_slash by blast
  ultimately have "splitext (sanitize_base s) = (sanitize_base s, [])"
    by (intro lead_dots_splitext)
  then have "clean_filename (sanitize_base s) = sanitize_base (sanitize_base s)"
    by (simp add: clean_filename_split)
  then show ?thesis by (simp add: c sanitize_base_idem)
qed

text \<open>
  C10 (as the code has it). Sanitization is idempotent on every string that contains no
  path separator \<open>/\<close>, and on every string in which \<open>splitext\<close> finds an extension.
\<close>

theorem clean_filename_idempotent:
  "CHR ''/'' \<notin> set s \<or> snd (splitext s) \<noteq> [] \<Longrightarrow>
     clean_filename (clean_filename s) = clean_filename s"
  using clean_filename_idem_ext clean_filename_idem_noslash by blast

theorem clean_filename_idempotent_witness:
  "CHR ''/'' \<notin> set ''my  report?.pdf''
   \<and> clean_filename ''my  report?.pdf'' = ''my report.pdf''
   \<and> clean_filename (clean_filename ''my  report?.pdf'') = clean_filename ''my  report?.pdf''"
proof -
  have h: "CHR ''/'' \<notin> set ''my  report?.pdf''" by simp
  have c: "clean_filename ''my  report?.pdf'' = ''my report.pdf''" by code_simp
  from h have "CHR ''/'' \<notin> set ''my  report?.pdf'' \<or> snd (splitext ''my  report?.pdf'') \<noteq> []"
    by (rule disjI1)
  from clean_filename_idempotent [OF this] h c show ?thesis by blast
qed

text \<open>
  C10 (as stated) fails: in \<open>a /.b\<close> the last dot follows a separator directly, so
  \<open>splitext\<close> finds no extension and the whole string is sanitized to \<open>a .b\<close>; cleaned
  again, \<open>.b\<close> is an extension and the base \<open>a \<close> loses its trailing space.
\<close>

theorem clean_filename_not_idempotent:
  "clean_filename ''a /.b'' = ''a .b''
   \<and> clean_filename (clean_filename ''a /.b'') = ''a.b''"
  by code_simp

section \<open>Extension reconciliation\<close>

lemma endswith_lower_iff:
  "endswith (lower bn) (lower ext) \<longleftrightarrow> (\<exists>p e. bn = p @ e \<and> lower e = lower ext)"
proof
  assume "endswith (lower bn) (lower ext)"
  then obtain zs where "map lower_char bn = zs @ map lower_char ext"
    by (auto simp: endswith_def lower_def suffix_def)
  then obtain p e where "bn = p @ e" "map lower_char e = map lower_char ext"
    by (auto simp: map_eq_append_conv)
  then show "\<exists>p e. bn = p @ e \<and> lower e = lower ext"
    by (auto simp: lower_def)
next
  assume "\<exists>p e. bn = p @ e \<and> lower e = lower ext"
  then obtain p e where "bn = p @ e" "lower e = lower ext" by blast
  then have "lower bn = lower p @ lower ext" by (simp add: lower_def)
  then show "endswith (lower bn) (lower ext)"
    by (simp add: endswith_def suffix_def)
qed

lemma ensure_extension_eq:
  "ensure_extension s ext =
     (if strip s = [] then ''renamed_file'' @ ext
      else if ext \<noteq> [] \<and> \<not> (\<exists>p e. strip s = p @ e \<and> lower e = lower ext)
      then strip s @ ext
      else strip s)"
  by (simp add: ensure_extension_def Let_def endswith_lower_iff)

text \<open>
  C6. With \<open>t\<close> the trimmed suggestion: an empty \<open>t\<close> gives \<open>renamed_file\<close> followed by
  the extension; otherwise the extension is appended exactly when it is non-empty and \<open>t\<close>
  does not end with it up to letter case (no split \<open>t = p @ e\<close> has \<open>e\<close> and the extension
  equal after lower-casing), and \<open>t\<close> is returned as it is in the other case. The three
  examples of the specification hold for the reconciliation alone and for the whole
  normalizer.
\<close>

theorem ensure_extension_reconciles:
  "ensure_extension s ext =
     (if strip s = [] then ''renamed_file'' @ ext
      else if ext \<noteq> [] \<and> \<not> (\<exists>p e. strip s = p @ e \<and> lower e = lower ext)
      then strip s @ ext
      else strip s)
   \<and> ensure_extension ''report'' ''.pdf'' = ''report.pdf''
   \<and> ensure_extension ''Report.PDF'' ''.pdf'' = ''Report.PDF''
   \<and> ensure_extension [] ''.txt'' = ''renamed_file.txt''
   \<and> normalize_suggestion ''report'' ''.pdf'' = ''report.pdf''
   \<and> normalize_suggestion ''Report.PDF'' ''.pdf'' = ''Report.PDF''
   \<and> normalize_suggestion [] ''.txt'' = ''renamed_file.txt''"
proof -
  have 1: "ensure_extension ''report'' ''.pdf'' = ''report.pdf''" by code_simp
  have 2: "ensure_extension ''Report.PDF'' ''.pdf'' = ''Report.PDF''" by code_simp
  have 3: "ensure_extension [] ''.txt'' = ''renamed_file.txt''" by code_simp
  have 4: "normalize_suggestion ''report'' ''.pdf'' = ''report.pdf''" by code_simp
  have 5: "normalize_suggestion ''Report.PDF'' ''.pdf'' = ''Report.PDF''" by code_simp
  have 6: "normalize_suggestion [] ''.txt'' = ''renamed_file.txt''" by code_simp
  from ensure_extension_eq [of s ext] 1 2 3 4 5 6 show ?thesis by blast
qed

theorem ensure_extension_reconciles_witness:
  "strip ''  Budget 2024 '' = ''Budget 2024''
   \<and> ensure_extension ''  Budget 2024 '' ''.xlsx'' = ''Budget 2024.xlsx''"
proof -
  have t: "strip ''  Budget 2024 '' = ''Budget 2024''" by code_simp
  have r: "ensure_extension ''  Budget 2024 '' ''.xlsx'' = ''Budget 2024.xlsx''" by code_simp
  from ensure_extension_reconciles [of "''  Budget 2024 ''" "''.xlsx''"] t r
  show ?thesis by blast
qed

section \<open>Sanitization\<close>

lemma join_last:
  assumes "\<forall>w\<in>set ws. word w" and "ws \<noteq> []"
  shows "join sep ws \<noteq> [] \<and> \<not> is_space (last (join sep ws))"
proof (cases ws rule: rev_cases)
  case Nil
  with assms(2) show ?thesis by simp
next
  case (snoc ws' w)
  with assms(1) have w: "w \<noteq> []" "\<not> is_space (last w)" by (auto simp: word_def)
  show ?thesis
  proof (cases "ws' = []")
    case True
    with snoc w show ?thesis by simp
  next
    case False
    then have "join sep ws = join sep ws' @ sep @ w" by (simp add: snoc join_snoc)
    with w show ?thesis by simp
  qed
qed

lemma collapse_keeps_text:
  "filter (\<lambda>c. \<not> is_space c) (join '' '' (split_ws k)) = filter (\<lambda>c. \<not> is_space c) k"
proof -
  have "\<forall>w\<in>set (split_ws k). word w" using split_ws_words by blast
  then have "filter (\<lambda>c. \<not> is_space c) (join '' '' (split_ws k)) = concat (split_ws k)"
    by (rule filter_join)
  then show ?thesis by (simp only: concat_split_ws)
qed

lemma collapse_only_spaces:
  "\<forall>c\<in>set (join '' '' (split_ws k)). is_space c \<longrightarrow> c = CHR '' ''"
proof (intro ballI impI)
  fix c assume a: "c \<in> set (join '' '' (split_ws k))" "is_space c"
  have w: "\<forall>w\<in>set (split_ws k). word w" using split_ws_words by blast
  show "c = CHR '' ''" by (rule join_spaces [OF w a])
qed

lemma collapse_single_spaced: "\<not> adjacent_spaces (join '' '' (split_ws k))"
proof -
  have "\<forall>w\<in>set (split_ws k). word w" using split_ws_words by blast
  then show ?thesis by (rule join_single_spaced)
qed

lemma collapse_no_leading_space: "\<not> startswith (join '' '' (split_ws k)) '' ''"
proof (cases "split_ws k = []")
  case True
  then show ?thesis by (simp add: startswith_def)
next
  case False
  have "\<forall>w\<in>set (split_ws k). word w" using split_ws_words by blast
  from join_hd [OF this False, of "'' ''"]
  obtain c cs where j: "join '' '' (split_ws k) = c # cs" and c: "\<not> is_space c"
    by (cases "join '' '' (split_ws k)") auto
  from c is_space_space have "c \<noteq> CHR '' ''" by auto
  then show ?thesis by (simp add: startswith_def j)
qed

lemma collapse_no_trailing_space: "\<not> endswith (join '' '' (split_ws k)) '' ''"
proof (cases "split_ws k = []")
  case True
  then show ?thesis by (simp add: endswith_def)
next
  case False
  have "\<forall>w\<in>set (split_ws k). word w" using split_ws_words by blast
  from join_last [OF this False, of "'' ''"]
  have ne: "join '' '' (split_ws k) \<noteq> []"
    and l: "\<not> is_space (last (join '' '' (split_ws k)))" by simp_all
  show ?thesis
  proof
    assume "endswith (join '' '' (split_ws k)) '' ''"
    then obtain zs where "join '' '' (split_ws k) = zs @ '' ''"
      by (auto simp: endswith_def suffix_def)
    then have "last (join '' '' (split_ws k)) = CHR '' ''" by simp
    with l is_space_space show False by simp
  qed
qed

lemma clean_filename_stages:
  "clean_filename s =
     (if rstrip_chars (join '' '' (split_ws (filter (\<lambda>c. \<not> reserved c) (fst (splitext s)))))
            ''. '' = []
      then ''renamed_file''
      else rstrip_chars (join '' '' (split_ws (filter (\<lambda>c. \<not> reserved c) (fst (splitext s)))))
            ''. '')
     @ snd (splitext s)"
  by (simp add: clean_filename_split sanitize_base_def Let_def)

lemma clean_filename_base_unreserved:
  "\<forall>c\<in>set (if rstrip_chars (join '' '' (split_ws (filter (\<lambda>c. \<not> reserved c) n))) ''. '' = []
            then ''renamed_file''
            else rstrip_chars (join '' '' (split_ws (filter (\<lambda>c. \<not> reserved c) n))) ''. '').
     \<not> reserved c"
proof -
  have "(if rstrip_chars (join '' '' (split_ws (filter (\<lambda>c. \<not> reserved c) n))) ''. '' = []
         then ''renamed_file''
         else rstrip_chars (join '' '' (split_ws (filter (\<lambda>c. \<not> reserved c) n))) ''. '')
        = sanitize_base n"
    by (simp add: sanitize_base_def Let_def)
  then show ?thesis using sanitize_base_unreserved by simp
qed

text \<open>
  C7. With \<open>name\<close> and \<open>ext\<close> the two parts \<open>os.path.splitext\<close> makes of the filename: the
  result is the sanitized base followed by \<open>ext\<close> unchanged. The base is obtained by
  removing the reserved characters from \<open>name\<close> (\<open>kept\<close>), collapsing whitespace
  (\<open>collapsed\<close>: the same text apart from whitespace, every whitespace character a space,
  no two of them side by side, none at either end), stripping the trailing dots and spaces
  (\<open>stripped\<close>), and substituting \<open>renamed_file\<close> when nothing is left; it holds no
  reserved character. In particular \<open>a/b:c*.txt\<close> becomes \<open>abc.txt\<close>.
\<close>

theorem clean_filename_sanitizes:
  "(let name = fst (splitext s); ext = snd (splitext s);
        kept = filter (\<lambda>c. \<not> reserved c) name;
        collapsed = join '' '' (split_ws kept);
        stripped = rstrip_chars collapsed ''. ''
    in s = name @ ext
       \<and> clean_filename s = (if stripped = [] then ''renamed_file'' else stripped) @ ext
       \<and> (\<forall>c\<in>set (if stripped = [] then ''renamed_file'' else stripped). \<not> reserved c)
       \<and> filter (\<lambda>c. \<not> is_space c) collapsed = filter (\<lambda>c. \<not> is_space c) kept
       \<and> (\<forall>c\<in>set collapsed. is_space c \<longrightarrow> c = CHR '' '')
       \<and> \<not> adjacent_spaces collapsed
       \<and> \<not> startswith collapsed '' '' \<and> \<not> endswith collapsed '' ''
       \<and> (\<exists>r. collapsed = stripped @ r \<and> set r \<subseteq> set ''. '')
       \<and> (stripped \<noteq> [] \<longrightarrow> last stripped \<notin> set ''. ''))
   \<and> clean_filename ''a/b:c*.txt'' = ''abc.txt''"
proof -
  have ex: "clean_filename ''a/b:c*.txt'' = ''abc.txt''" by code_simp
  have p: "s = fst (splitext s) @ snd (splitext s)" by (simp only: splitext_partition)
  show ?thesis
    unfolding Let_def
    by (intro conjI p clean_filename_stages clean_filename_base_unreserved collapse_keeps_text
        collapse_only_spaces collapse_single_spaced collapse_no_leading_space
        collapse_no_trailing_space rstrip_decomp impI rstrip_last ex)
qed

theorem clean_filename_sanitizes_witness:
  "rstrip_chars (join '' '' (split_ws (filter (\<lambda>c. \<not> reserved c)
        (fst (splitext ''  Q3:  Budget  review. .txt''))))) ''. '' = ''Q3 Budget review''
   \<and> snd (splitext ''  Q3:  Budget  review. .txt'') = ''.txt''
   \<and> clean_filename ''  Q3:  Budget  review. .txt'' = ''Q3 Budget review.txt''
   \<and> last ''Q3 Budget review'' \<notin> set ''. ''"
proof -
  let ?s = "''  Q3:  Budget  review. .txt''"
  let ?stripped = "rstrip_chars (join '' '' (split_ws (filter (\<lambda>c. \<not> reserved c)
        (fst (splitext ?s))))) ''. ''"
  have st: "?stripped = ''Q3 Budget review''" by code_simp
  have e: "snd (splitext ?s) = ''.txt''" by code_simp
  from clean_filename_sanitizes [of ?s]
  have c: "clean_filename ?s = (if ?stripped = [] then ''renamed_file'' else ?stripped)
             @ snd (splitext ?s)"
    and l: "?stripped \<noteq> [] \<longrightarrow> last ?stripped \<notin> set ''. ''"
    unfolding Let_def by blast+
  have ne: "?stripped \<noteq> []" by (simp only: st) simp
  from l ne have "last ?stripped \<notin> set ''. ''" by blast
  then have l': "last ''Q3 Budget review'' \<notin> set ''. ''" unfolding st .
  from c have "clean_filename ?s = ''Q3 Budget review.txt''" by (simp only: st e) simp
  with st e l' show ?thesis by blast
qed

section \<open>The normalized filename\<close>


lemma lower_shape:
  assumes l: "lower e' = lower (CHR ''.'' # t)" and t: "\<forall>c\<in>set t. \<not> special c"
  shows "\<exists>t'. e' = CHR ''.'' # t' \<and> length t' = length t \<and> (\<forall>c\<in>set t'. \<not> special c)"
proof -
  from l obtain c0 t' where e': "e' = c0 # t'" and c0: "lower_char c0 = lower_char (CHR ''.'')"
    and m: "map lower_char t' = map lower_char t"
    by (cases e') (auto simp: lower_def)
  have "special (CHR ''.'')" by (simp add: special_def)
  from lower_char_special [OF this c0] have dot: "c0 = CHR ''.''" .
  have len: "length t' = length t" using m by (rule map_eq_imp_length_eq)
  have "\<forall>c\<in>set t'. \<not> special c"
  proof
    fix c assume "c \<in> set t'"
    then obtain i where i: "i < length t'" "t' ! i = c" by (auto simp: in_set_conv_nth)
    have "map lower_char t' ! i = map lower_char t ! i" by (simp only: m)
    then have eq: "lower_char (t ! i) = lower_char c" using i len by simp
    show "\<not> special c"
    proof
      assume sc: "special c"
      from lower_char_special [OF sc eq] have "t ! i = c" .
      moreover have "t ! i \<in> set t" using i(1) len by simp
      ultimately show False using t sc by auto
    qed
  qed
  with e' dot len show ?thesis by blast
qed















section \<open>Properties of the orchestrator\<close>

lemma rename_single_file_collision:
  assumes "fs (resolve file_path) = Some (File content)"
    and "length content \<le> MAX_FILE_BYTES"
    and "gateway env (get_file_category file_path (detect_mime env file_path))
           = Output (Some text)"
    and "strip text \<noteq> []"
    and "ensure_extension (strip text) (path_suffix (path_name file_path))
           \<noteq> path_name file_path"
    and "os_path_exists fs
           (os_path_join (path_parent file_path)
              (clean_filename (ensure_extension (strip text)
                 (path_suffix (path_name file_path)))))"
  shows "rename_single_file env fs file_path =
           \<lparr>success = False,
            printed = Some (TargetExists
              (clean_filename (ensure_extension (strip text)
                 (path_suffix (path_name file_path))))),
            files = fs\<rparr>"
proof -
  have t: "text \<noteq> []" using assms(4) by (auto simp: strip_def)
  have s: "suggest_filename env file_path (path_name file_path) (detect_mime env file_path)
             (get_file_category file_path (detect_mime env file_path))
           = Inr (ensure_extension (strip text) (path_suffix (path_name file_path)))"
    using assms(3,4) t by (simp add: suggest_filename_def)
  have ne: "ensure_extension (strip text) (path_suffix (path_name file_path)) \<noteq> []"
    using assms(4) by (simp add: ensure_extension_eq)
  show ?thesis
    unfolding rename_single_file_def Let_def
    using assms(1,2,5,6) ne by (simp add: s)
qed

lemma rename_single_file_unchanged:
  assumes "fs (resolve file_path) = Some (File content)"
    and "length content \<le> MAX_FILE_BYTES"
    and "gateway env (get_file_category file_path (detect_mime env file_path))
           = Output (Some text)"
    and "strip text \<noteq> []"
    and "ensure_extension (strip text) (path_suffix (path_name file_path))
           = path_name file_path"
  shows "rename_single_file env fs file_path =
           \<lparr>success = True, printed = Some (KeepOriginal (path_name file_path)), files = fs\<rparr>"
proof -
  have t: "text \<noteq> []" using assms(4) by (auto simp: strip_def)
  have s: "suggest_filename env file_path (path_name file_path) (detect_mime env file_path)
             (get_file_category file_path (detect_mime env file_path))
           = Inr (ensure_extension (strip text) (path_suffix (path_name file_path)))"
    using assms(3,4) t by (simp add: suggest_filename_def)
  show ?thesis
    unfolding rename_single_file_def Let_def
    using assms(1,2,5) by (simp add: s)
qed

lemma sample_notes:
  "resolve ''docs/notes.txt'' = (False, [''docs'', ''notes.txt''])"
  "path_name ''docs/notes.txt'' = ''notes.txt''"
  "path_suffix ''notes.txt'' = ''.txt''"
  "path_parent ''docs/notes.txt'' = ''docs''"
  by code_simp+

lemma sample_notes_file:
  "sample_files (resolve ''docs/notes.txt'') = Some (File ''Meeting minutes'')"
  "length ''Meeting minutes'' \<le> MAX_FILE_BYTES"
  by (simp_all add: sample_notes sample_files_def MAX_FILE_BYTES_def)

lemma stub_gateway: "gateway (stub_environment answer) c = Output (Some answer)"
  by (simp add: stub_environment_def)

text \<open>
  C5 (as the code has it). In every invocation that computes a destination (the target is a
  regular file within the size ceiling, the model answered with usable text, and the
  reconciled suggestion, compared before sanitization as \<open>rename_single_file\<close> does,
  differs from the original name) and finds a file system entry at that destination, the
  operation reports failure with the collision message for the normalized name, performs
  no rename, and leaves the whole file system, source and existing destination included,
  as it was.
\<close>

theorem collision_is_terminal:
  assumes "fs (resolve file_path) = Some (File content)"
    and "length content \<le> MAX_FILE_BYTES"
    and "gateway env (get_file_category file_path (detect_mime env file_path))
           = Output (Some text)"
    and "strip text \<noteq> []"
    and "ensure_extension (strip text) (path_suffix (path_name file_path))
           \<noteq> path_name file_path"
    and "os_path_exists fs
           (os_path_join (path_parent file_path)
              (clean_filename (ensure_extension (strip text)
                 (path_suffix (path_name file_path)))))"
  shows "rename_single_file env fs file_path =
           \<lparr>success = False,
            printed = Some (TargetExists
              (clean_filename (ensure_extension (strip text)
                 (path_suffix (path_name file_path))))),
            files = fs\<rparr>"
  using assms by (rule rename_single_file_collision)

theorem collision_is_terminal_witness:
  "sample_files (resolve ''docs/target.txt'') = Some (File ''older'')
   \<and> clean_filename (ensure_extension (strip '' target '')
         (path_suffix (path_name ''docs/notes.txt''))) = ''target.txt''
   \<and> rename_single_file (stub_environment '' target '') sample_files ''docs/notes.txt'' =
        \<lparr>success = False, printed = Some (TargetExists ''target.txt''),
         files = sample_files\<rparr>"
proof -
  let ?new = "ensure_extension (strip '' target '') (path_suffix (path_name ''docs/notes.txt''))"
  have st: "strip '' target '' \<noteq> []" by code_simp
  have new: "?new = ''target.txt''" by code_simp
  have cl: "clean_filename ?new = ''target.txt''" by code_simp
  have d: "os_path_join (path_parent ''docs/notes.txt'') ''target.txt'' = ''docs/target.txt''"
    by code_simp
  have r: "resolve ''docs/target.txt'' = (False, [''docs'', ''target.txt''])" by code_simp
  have t: "sample_files (resolve ''docs/target.txt'') = Some (File ''older'')"
    by (simp add: r sample_files_def)
  have df: "?new \<noteq> path_name ''docs/notes.txt''" by code_simp
  have ex: "os_path_exists sample_files
              (os_path_join (path_parent ''docs/notes.txt'') (clean_filename ?new))"
    by (simp only: cl d os_path_exists_def t) simp
  from collision_is_terminal [OF sample_notes_file stub_gateway st df ex]
  have "rename_single_file (stub_environment '' target '') sample_files ''docs/notes.txt'' =
          \<lparr>success = False, printed = Some (TargetExists (clean_filename ?new)),
           files = sample_files\<rparr>" .
  then have "rename_single_file (stub_environment '' target '') sample_files ''docs/notes.txt'' =
          \<lparr>success = False, printed = Some (TargetExists ''target.txt''),
           files = sample_files\<rparr>"
    by (simp only: cl)
  with t cl show ?thesis by blast
qed

text \<open>
  C5 (as stated) fails. The model answers \<open>a:b\<close> for \<open>docs/a:b.txt\<close>, beside which
  \<open>docs/ab.txt\<close> exists. The normalized filename is \<open>ab.txt\<close> and a file exists at the
  destination computed for it; but the reconciled suggestion \<open>a:b.txt\<close> equals the original
  name, so \<open>rename_single_file\<close> never sanitizes it nor looks at the destination: the
  invocation succeeds with the keep-original message, not the collision message.
\<close>

theorem same_name_skips_collision_check:
  "normalize_suggestion (strip ''a:b'') (path_suffix (path_name ''docs/a:b.txt'')) = ''ab.txt''
   \<and> os_path_join (path_parent ''docs/a:b.txt'') ''ab.txt'' = ''docs/ab.txt''
   \<and> os_path_exists colon_files ''docs/ab.txt''
   \<and> rename_single_file (stub_environment ''a:b'') colon_files ''docs/a:b.txt'' =
        \<lparr>success = True, printed = Some (KeepOriginal ''a:b.txt''), files = colon_files\<rparr>"
proof -
  have n: "normalize_suggestion (strip ''a:b'') (path_suffix (path_name ''docs/a:b.txt''))
             = ''ab.txt''" by code_simp
  have d: "os_path_join (path_parent ''docs/a:b.txt'') ''ab.txt'' = ''docs/ab.txt''"
    by code_simp
  have r: "resolve ''docs/ab.txt'' = (False, [''docs'', ''ab.txt''])" by code_simp
  have ex: "os_path_exists colon_files ''docs/ab.txt''"
    by (simp add: os_path_exists_def r colon_files_def)
  have rs: "resolve ''docs/a:b.txt'' = (False, [''docs'', ''a:b.txt''])" by code_simp
  have f: "colon_files (resolve ''docs/a:b.txt'') = Some (File ''first'')"
    by (simp add: rs colon_files_def)
  have len: "length ''first'' \<le> MAX_FILE_BYTES" by (simp add: MAX_FILE_BYTES_def)
  have st: "strip ''a:b'' \<noteq> []" by code_simp
  have pn: "path_name ''docs/a:b.txt'' = ''a:b.txt''" by code_simp
  have e: "ensure_extension (strip ''a:b'') (path_suffix (path_name ''docs/a:b.txt''))
             = path_name ''docs/a:b.txt''" by code_simp
  from rename_single_file_unchanged [where fs = colon_files and file_path = "''docs/a:b.txt''"
      and env = "stub_environment ''a:b''", OF f len stub_gateway st e]
  have "rename_single_file (stub_environment ''a:b'') colon_files ''docs/a:b.txt'' =
          \<lparr>success = True, printed = Some (KeepOriginal (path_name ''docs/a:b.txt'')),
           files = colon_files\<rparr>" .
  then have "rename_single_file (stub_environment ''a:b'') colon_files ''docs/a:b.txt'' =
          \<lparr>success = True, printed = Some (KeepOriginal ''a:b.txt''), files = colon_files\<rparr>"
    by (simp only: pn)
  with n d ex show ?thesis by blast
qed

text \<open>
  C2 (the code at a suggestion that sanitizes to the original name). The model answers
  \<open>notes:\<close> for \<open>docs/notes.txt\<close>. The reconciled name \<open>notes:.txt\<close> differs from the
  original, so the comparison of \<open>rename_single_file\<close>, made before sanitization, lets it
  through; sanitized it is \<open>notes.txt\<close>, the original name; the destination is the file
  itself, which exists, and the invocation ends with the collision message and failure.
  Nothing is renamed.
\<close>

theorem sanitized_to_original_reports_collision:
  "normalize_suggestion ''notes:'' (path_suffix (path_name ''docs/notes.txt''))
     = path_name ''docs/notes.txt''
   \<and> rename_single_file (stub_environment ''notes:'') sample_files ''docs/notes.txt'' =
        \<lparr>success = False, printed = Some (TargetExists ''notes.txt''),
         files = sample_files\<rparr>"
proof -
  let ?new = "ensure_extension (strip ''notes:'') (path_suffix (path_name ''docs/notes.txt''))"
  have st: "strip ''notes:'' \<noteq> []" by code_simp
  have new: "?new = ''notes:.txt''" by code_simp
  have cl: "clean_filename ?new = ''notes.txt''" by code_simp
  have n: "normalize_suggestion ''notes:'' (path_suffix (path_name ''docs/notes.txt''))
             = path_name ''docs/notes.txt''" by code_simp
  have d: "os_path_join (path_parent ''docs/notes.txt'') ''notes.txt'' = ''docs/notes.txt''"
    by code_simp
  have df: "?new \<noteq> path_name ''docs/notes.txt''" by code_simp
  have ex: "os_path_exists sample_files
              (os_path_join (path_parent ''docs/notes.txt'') (clean_filename ?new))"
    by (simp only: cl d os_path_exists_def sample_notes_file) simp
  from rename_single_file_collision [OF sample_notes_file stub_gateway st df ex]
  have "rename_single_file (stub_environment ''notes:'') sample_files ''docs/notes.txt'' =
          \<lparr>success = False, printed = Some (TargetExists (clean_filename ?new)),
           files = sample_files\<rparr>" .
  then have "rename_single_file (stub_environment ''notes:'') sample_files ''docs/notes.txt'' =
          \<lparr>success = False, printed = Some (TargetExists ''notes.txt''),
           files = sample_files\<rparr>"
    by (simp only: cl)
  with n show ?thesis by blast
qed

section \<open>Further properties of the orchestrator\<close>

lemma suggest_filename_text:
  assumes "gateway env cat = Output (Some text)" and "strip text \<noteq> []"
  shows "suggest_filename env file_path current mime cat
           = Inr (ensure_extension (strip text) (path_suffix current))"
proof -
  have "text \<noteq> []" using assms(2) by (auto simp: strip_def)
  then show ?thesis using assms by (simp add: suggest_filename_def)
qed

lemma ensure_extension_nonempty: "strip text \<noteq> [] \<Longrightarrow> ensure_extension (strip text) ext \<noteq> []"
  by (simp add: ensure_extension_eq)

text \<open>
  When the reconciled suggestion equals the original file name, the invocation
  succeeds with the keep-original message and changes nothing.
\<close>

theorem unchanged_name_is_success:
  assumes "fs (resolve file_path) = Some (File content)"
    and "length content \<le> MAX_FILE_BYTES"
    and "gateway env (get_file_category file_path (detect_mime env file_path))
           = Output (Some text)"
    and "strip text \<noteq> []"
    and "ensure_extension (strip text) (path_suffix (path_name file_path))
           = path_name file_path"
  shows "rename_single_file env fs file_path =
           \<lparr>success = True, printed = Some (KeepOriginal (path_name file_path)), files = fs\<rparr>"
  unfolding rename_single_file_def Let_def
  using assms(1,2,5) by (simp add: suggest_filename_text [OF assms(3,4)])

theorem unchanged_name_is_success_witness:
  "ensure_extension (strip ''notes'') (path_suffix (path_name ''docs/notes.txt''))
     = path_name ''docs/notes.txt''
   \<and> rename_single_file (stub_environment ''notes'') sample_files ''docs/notes.txt'' =
        \<lparr>success = True, printed = Some (KeepOriginal ''notes.txt''), files = sample_files\<rparr>"
proof -
  have st: "strip ''notes'' \<noteq> []" by code_simp
  have e: "ensure_extension (strip ''notes'') (path_suffix (path_name ''docs/notes.txt''))
             = path_name ''docs/notes.txt''" by code_simp
  from unchanged_name_is_success [where fs = sample_files and file_path = "''docs/notes.txt''"
      and env = "stub_environment ''notes''", OF sample_notes_file stub_gateway st e]
  have "rename_single_file (stub_environment ''notes'') sample_files ''docs/notes.txt'' =
          \<lparr>success = True, printed = Some (KeepOriginal (path_name ''docs/notes.txt'')),
           files = sample_files\<rparr>" .
  then have "rename_single_file (stub_environment ''notes'') sample_files ''docs/notes.txt'' =
          \<lparr>success = True, printed = Some (KeepOriginal ''notes.txt''), files = sample_files\<rparr>"
    by (simp only: sample_notes)
  with e show ?thesis by blast
qed

text \<open>
  When the normalized name differs from the original, nothing exists at the
  destination, the user accepts and the operating system performs the rename, the
  invocation succeeds: afterwards the destination holds the content of the source and the
  source path holds nothing.
\<close>

theorem accepted_rename_moves_file:
  assumes "fs (resolve file_path) = Some (File content)"
    and "length content \<le> MAX_FILE_BYTES"
    and "gateway env (get_file_category file_path (detect_mime env file_path))
           = Output (Some text)"
    and "strip text \<noteq> []"
    and "ensure_extension (strip text) (path_suffix (path_name file_path))
           \<noteq> path_name file_path"
    and "cleaned = clean_filename (ensure_extension (strip text)
                     (path_suffix (path_name file_path)))"
    and "dest = os_path_join (path_parent file_path) cleaned"
    and "\<not> os_path_exists fs dest"
    and "confirmation env" and "\<not> rename_refused env"
  shows "rename_single_file env fs file_path =
           \<lparr>success = True, printed = Some (Renamed cleaned),
            files = os_rename fs file_path dest\<rparr>
         \<and> os_rename fs file_path dest (resolve dest) = Some (File content)
         \<and> os_rename fs file_path dest (resolve file_path) = None"
proof -
  have ne: "ensure_extension (strip text) (path_suffix (path_name file_path)) \<noteq> []"
    by (rule ensure_extension_nonempty [OF assms(4)])
  have r: "rename_single_file env fs file_path =
           \<lparr>success = True, printed = Some (Renamed cleaned),
            files = os_rename fs file_path dest\<rparr>"
    unfolding rename_single_file_def Let_def
    using assms(1,2,5,8,9,10) ne
    by (simp add: suggest_filename_text [OF assms(3,4)] assms(6,7))
  have "fs (resolve dest) = None" using assms(8) by (simp add: os_path_exists_def)
  with assms(1) have d: "resolve dest \<noteq> resolve file_path" by auto
  have a: "os_rename fs file_path dest (resolve dest) = Some (File content)"
    using assms(1) by (simp add: os_rename_def)
  have b: "os_rename fs file_path dest (resolve file_path) = None"
    using d by (simp add: os_rename_def)
  from r a b show ?thesis by blast
qed

theorem accepted_rename_moves_file_witness:
  "rename_single_file (stub_environment ''Q3 Budget Review Minutes'') sample_files
       ''docs/notes.txt'' =
     \<lparr>success = True, printed = Some (Renamed ''Q3 Budget Review Minutes.txt''),
      files = os_rename sample_files ''docs/notes.txt''
                ''docs/Q3 Budget Review Minutes.txt''\<rparr>
   \<and> os_rename sample_files ''docs/notes.txt'' ''docs/Q3 Budget Review Minutes.txt''
        (resolve ''docs/Q3 Budget Review Minutes.txt'') = Some (File ''Meeting minutes'')
   \<and> os_rename sample_files ''docs/notes.txt'' ''docs/Q3 Budget Review Minutes.txt''
        (resolve ''docs/notes.txt'') = None"
proof -
  let ?text = "''Q3 Budget Review Minutes''"
  let ?new = "ensure_extension (strip ?text) (path_suffix (path_name ''docs/notes.txt''))"
  have st: "strip ?text \<noteq> []" by code_simp
  have df: "?new \<noteq> path_name ''docs/notes.txt''" by code_simp
  have cl: "''Q3 Budget Review Minutes.txt'' = clean_filename ?new" by code_simp
  have d: "''docs/Q3 Budget Review Minutes.txt''
             = os_path_join (path_parent ''docs/notes.txt'') ''Q3 Budget Review Minutes.txt''"
    by code_simp
  have r: "resolve ''docs/Q3 Budget Review Minutes.txt''
             = (False, [''docs'', ''Q3 Budget Review Minutes.txt''])" by code_simp
  have ex: "\<not> os_path_exists sample_files ''docs/Q3 Budget Review Minutes.txt''"
    by (simp add: os_path_exists_def r sample_files_def)
  have c: "confirmation (stub_environment ?text)" by (simp add: stub_environment_def)
  have n: "\<not> rename_refused (stub_environment ?text)" by (simp add: stub_environment_def)
  show ?thesis
    by (rule accepted_rename_moves_file [where fs = sample_files
          and file_path = "''docs/notes.txt''" and env = "stub_environment ?text",
          OF sample_notes_file stub_gateway st df cl d ex c n])
qed

text \<open>
  Whatever the invocation, the file system changes only when the rename is reported:
  every other outcome, failure or success, leaves it as it was.
\<close>

theorem only_a_rename_changes_files:
  "files (rename_single_file env fs file_path) = fs
   \<or> (\<exists>n. printed (rename_single_file env fs file_path) = Some (Renamed n)
           \<and> success (rename_single_file env fs file_path))"
  unfolding rename_single_file_def Let_def
  by (simp split: option.split entry.split sum.split)

end
